theory Spec2Isabelle
  imports Complex_Main "HOL-Library.List_Lexorder"
begin

section \<open>Python strings\<close>

text \<open>
  A Python \<open>str\<close> is a sequence of Unicode code points, and \<open>len\<close> counts code points.
  It is modelled as a list of natural numbers; \<open>u\<close> turns an ASCII literal into such a list.
\<close>

type_synonym ustring = "nat list"

definition u :: "string \<Rightarrow> ustring" where
  "u s = map of_char s"

text \<open>
  \<open>str.isspace\<close> for one code point: the characters that \<open>str.strip()\<close> removes.
\<close>

definition isspace :: "nat \<Rightarrow> bool" where
  "isspace c \<longleftrightarrow>
     (9 \<le> c \<and> c \<le> 13) \<or> (28 \<le> c \<and> c \<le> 32) \<or> c = 133 \<or> c = 160 \<or> c = 5760 \<or>
     (8192 \<le> c \<and> c \<le> 8202) \<or> c = 8232 \<or> c = 8233 \<or> c = 8239 \<or> c = 8287 \<or> c = 12288"

definition strip :: "ustring \<Rightarrow> ustring" where
  "strip s = rev (dropWhile isspace (rev (dropWhile isspace s)))"

definition startswith :: "ustring \<Rightarrow> ustring \<Rightarrow> bool" where
  "startswith s p \<longleftrightarrow> take (length p) s = p"

text \<open>\<open>p in s\<close> for strings: \<open>p\<close> occurs in \<open>s\<close> as a contiguous substring.\<close>

fun contains :: "ustring \<Rightarrow> ustring \<Rightarrow> bool" where
  "contains [] p = (p = [])"
| "contains (c # s) p = (startswith (c # s) p \<or> contains s p)"

section \<open>Errors\<close>

text \<open>
  The exceptions that leave the modelled functions. \<open>DbError\<close> stands for an
  \<open>sqlite3.Error\<close> raised by the database layer.
\<close>

datatype error = KeyError string | TypeError | AttributeError | ZeroDivisionError | DbError

section \<open>Morphology aggregation (corpus/index\_builder.py)\<close>

subsection \<open>Input lines\<close>

text \<open>
  One line of the morphology file, after \<open>line.strip()\<close> and \<open>json.loads\<close>:
  \<^item> \<open>Blank\<close>: \<open>line.strip()\<close> is empty, the line is ignored;
  \<^item> \<open>NotJson\<close>: \<open>json.loads\<close> raises \<open>JSONDecodeError\<close>;
  \<^item> \<open>NonObject\<close>: valid JSON that is not an object (subscripting it with a string raises a
    \<open>TypeError\<close>);
  \<^item> \<open>Object\<close>: a JSON object; under each of the five keys the code reads it has no
    entry (\<open>Absent\<close>), the JSON value \<open>null\<close> (\<open>Null\<close>, Python's \<open>None\<close>) or a string
    (\<open>Str\<close>). Numbers, booleans, arrays and objects as field values are not modelled.
\<close>

datatype json_field = Absent | Null | Str ustring

record json_token =
  j_form :: json_field
  j_lemma :: json_field
  j_upos :: json_field
  j_feats :: json_field
  j_sentence_id :: json_field

text \<open>
  The Python value read from a field that is present: \<open>None\<close> for \<open>null\<close>, else the string.
\<close>

definition py_value :: "json_field \<Rightarrow> ustring option" where
  "py_value f = (case f of Str s \<Rightarrow> Some s | _ \<Rightarrow> None)"

datatype line = Blank | NotJson | NonObject | Object json_token

subsection \<open>Per-wordform state\<close>

text \<open>
  The value the \<open>defaultdict\<close> creates for a new key (the field \<open>'lemma'\<close> is named
  \<open>wf_lemma\<close> here). \<open>feats_counter\<close> is a \<open>Counter\<close>
  (a dict, hence insertion ordered); \<open>sentence_ids\<close> is a Python set, kept here as a
  duplicate-free list in insertion order (Python fixes no iteration order for it). The
  values of \<open>lemma\<close> and \<open>upos\<close> and the elements of \<open>sentence_ids\<close> are Python values
  that are \<open>None\<close> or a string.
\<close>

record wordform_rec =
  wf_lemma :: "ustring option"
  upos :: "ustring option"
  feats_counter :: "(ustring \<times> nat) list"
  frequency :: nat
  sentence_ids :: "ustring option list"

definition new_wordform :: wordform_rec where
  "new_wordform =
     \<lparr>wf_lemma = None, upos = None, feats_counter = [], frequency = 0, sentence_ids = []\<rparr>"

type_synonym wordforms = "(ustring \<times> wordform_rec) list"

text \<open>\<open>counter[k] += 1\<close>: a missing key counts as 0 and is appended to the dict.\<close>

fun counter_incr :: "'k \<Rightarrow> ('k \<times> nat) list \<Rightarrow> ('k \<times> nat) list" where
  "counter_incr k [] = [(k, 1)]"
| "counter_incr k ((k', n) # c) =
     (if k = k' then (k', n + 1) # c else (k', n) # counter_incr k c)"

definition set_add :: "'a \<Rightarrow> 'a list \<Rightarrow> 'a list" where
  "set_add x xs = (if x \<in> set xs then xs else xs @ [x])"

text \<open>
  The body of the loop after \<open>wf = wordforms[form]\<close> (lines 66--82); \<open>r\<close> is the entry
  \<open>wf\<close>. The test \<open>wf['lemma'] is None\<close> also succeeds when an earlier token stored a
  \<open>null\<close> lemma; \<open>if feats\<close> fails for \<open>None\<close> and for the empty string.
\<close>

definition update_wordform ::
  "ustring option \<Rightarrow> ustring option \<Rightarrow> ustring option \<Rightarrow> ustring option \<Rightarrow>
   wordform_rec \<Rightarrow> wordform_rec" where
  "update_wordform lem pos feats sentence_id r =
     (let r1 = (if wf_lemma r = None then r\<lparr>wf_lemma := lem, upos := pos\<rparr> else r);
          r2 = r1\<lparr>feats_counter :=
                  counter_incr (case feats of None \<Rightarrow> [] | Some f \<Rightarrow> if f \<noteq> [] then f else [])
                    (feats_counter r1)\<rparr>;
          r3 = r2\<lparr>frequency := frequency r2 + 1\<rparr>
      in if length (sentence_ids r3) < 10
         then r3\<lparr>sentence_ids := set_add sentence_id (sentence_ids r3)\<rparr>
         else r3)"

text \<open>
  \<open>wordforms[form]\<close> on the \<open>defaultdict\<close> followed by in-place mutation of the entry:
  an unknown key is appended with the default value, then updated.
\<close>

fun with_wordform ::
  "ustring \<Rightarrow> (wordform_rec \<Rightarrow> wordform_rec) \<Rightarrow> wordforms \<Rightarrow> wordforms" where
  "with_wordform k f [] = [(k, f new_wordform)]"
| "with_wordform k f ((k', v) # d) =
     (if k = k' then (k', f v) # d else (k', v) # with_wordform k f d)"

subsection \<open>The aggregation loop\<close>

text \<open>
  \<open>warnings\<close> collects the line numbers for which the JSON error message is printed.
\<close>

record agg_state =
  wordforms :: wordforms
  processed_tokens :: nat
  warnings :: "nat list"

definition init_state :: agg_state where
  "init_state = \<lparr>wordforms = [], processed_tokens = 0, warnings = []\<rparr>"

text \<open>
  One iteration of the loop at lines 49--91. The five subscripts of lines 53--57 come
  first, each raising \<open>KeyError\<close> for a missing key; then \<open>form.strip()\<close>, which raises
  \<open>AttributeError\<close> when \<open>form\<close> is \<open>None\<close>. Only \<open>json.JSONDecodeError\<close> is caught; a
  \<open>KeyError\<close>, \<open>TypeError\<close> or \<open>AttributeError\<close> leaves the function.
\<close>

definition process_line :: "nat \<Rightarrow> line \<Rightarrow> agg_state \<Rightarrow> error + agg_state" where
  "process_line line_num l st =
     (case l of
        Blank \<Rightarrow> Inr st
      | NotJson \<Rightarrow> Inr (st\<lparr>warnings := warnings st @ [line_num]\<rparr>)
      | NonObject \<Rightarrow> Inl TypeError
      | Object data \<Rightarrow>
          if j_form data = Absent then Inl (KeyError ''form'')
          else if j_lemma data = Absent then Inl (KeyError ''lemma'')
          else if j_upos data = Absent then Inl (KeyError ''upos'')
          else if j_feats data = Absent then Inl (KeyError ''feats'')
          else if j_sentence_id data = Absent then Inl (KeyError ''sentence_id'')
          else
            (case py_value (j_form data) of
               None \<Rightarrow> Inl AttributeError
             | Some form \<Rightarrow>
                 if strip form = [] then Inr st
                 else Inr (st\<lparr>wordforms :=
                                with_wordform form
                                  (update_wordform (py_value (j_lemma data))
                                     (py_value (j_upos data)) (py_value (j_feats data))
                                     (py_value (j_sentence_id data)))
                                  (wordforms st),
                              processed_tokens := processed_tokens st + 1\<rparr>)))"

fun process_lines :: "nat \<Rightarrow> line list \<Rightarrow> agg_state \<Rightarrow> error + agg_state" where
  "process_lines line_num [] st = Inr st"
| "process_lines line_num (l # ls) st =
     (case process_line line_num l st of
        Inl e \<Rightarrow> Inl e
      | Inr st' \<Rightarrow> process_lines (line_num + 1) ls st')"

text \<open>
  \<open>process_morphology_data\<close>: the returned dict is the \<open>wordforms\<close> field of the final
  state (the \<open>sentences\<close> argument is unused by the source).
\<close>

definition process_morphology_data :: "line list \<Rightarrow> error + agg_state" where
  "process_morphology_data morphology_file = process_lines 1 morphology_file init_state"


text \<open>A line holding a complete token record: all five keys present, with strings.\<close>

definition token_line :: "ustring \<Rightarrow> ustring \<Rightarrow> ustring \<Rightarrow> ustring \<Rightarrow> ustring \<Rightarrow> line" where
  "token_line form lem pos feats sentence_id =
     Object \<lparr>j_form = Str form, j_lemma = Str lem, j_upos = Str pos, j_feats = Str feats,
             j_sentence_id = Str sentence_id\<rparr>"

definition is_str :: "json_field \<Rightarrow> bool" where
  "is_str f = (case f of Str s \<Rightarrow> True | _ \<Rightarrow> False)"

text \<open>A well-formed token: a JSON object whose five fields are strings.\<close>

definition well_formed :: "line \<Rightarrow> bool" where
  "well_formed l \<longleftrightarrow>
     (case l of
        Object d \<Rightarrow> is_str (j_form d) \<and> is_str (j_lemma d) \<and> is_str (j_upos d) \<and>
                    is_str (j_feats d) \<and> is_str (j_sentence_id d)
      | _ \<Rightarrow> False)"

definition has_form :: "ustring \<Rightarrow> line \<Rightarrow> bool" where
  "has_form W l \<longleftrightarrow> (case l of Object d \<Rightarrow> j_form d = Str W | _ \<Rightarrow> False)"

text \<open>The first well-formed token of the stream whose surface form is exactly \<open>W\<close>.\<close>

definition first_token :: "ustring \<Rightarrow> line list \<Rightarrow> line option" where
  "first_token W ls = List.find (\<lambda>l. well_formed l \<and> has_form W l) ls"

subsection \<open>Invariants of the aggregation state\<close>

definition all_records :: "(ustring \<Rightarrow> wordform_rec \<Rightarrow> bool) \<Rightarrow> agg_state \<Rightarrow> bool" where
  "all_records P st \<longleftrightarrow> (\<forall>W r. map_of (wordforms st) W = Some r \<longrightarrow> P W r)"

definition reservoir_ok :: "wordform_rec \<Rightarrow> bool" where
  "reservoir_ok r \<longleftrightarrow> length (sentence_ids r) \<le> 10 \<and> distinct (sentence_ids r)"

definition keyed :: "ustring \<Rightarrow> wordform_rec \<Rightarrow> bool" where
  "keyed W r \<longleftrightarrow> strip W \<noteq> []"

definition named :: "ustring \<Rightarrow> wordform_rec \<Rightarrow> bool" where
  "named W r \<longleftrightarrow> strip W \<noteq> [] \<and> wf_lemma r \<noteq> None"

section \<open>Example selection (corpus/index\_builder.py)\<close>

text \<open>The sentence store built by \<open>load_sentences\<close>: a dict from sentence id to text.\<close>

type_synonym sentences = "ustring \<rightharpoonup> ustring"

datatype sentence_line =
  SBlank | SNotJson | SNonObject | SObject "ustring option" "ustring option"

text \<open>
  The loop of \<open>load_sentences\<close> over the lines of the file, with the dict built so far;
  the two components of \<open>SObject\<close> are the values under the keys \<open>'sentence_id'\<close> and
  \<open>'text'\<close> (\<open>None\<close>: key absent). The right-hand side \<open>data['text']\<close> is evaluated
  before the subscript \<open>data['sentence_id']\<close>. Ids and texts of the sentence file that
  are not strings are not modelled.
\<close>

fun load_lines :: "sentence_line list \<Rightarrow> sentences \<Rightarrow> error + sentences" where
  "load_lines [] m = Inr m"
| "load_lines (SBlank # ls) m = load_lines ls m"
| "load_lines (SNotJson # ls) m = load_lines ls m"
| "load_lines (SNonObject # ls) m = Inl TypeError"
| "load_lines (SObject sid text # ls) m =
     (case text of None \<Rightarrow> Inl (KeyError ''text'') | Some t \<Rightarrow>
      (case sid of None \<Rightarrow> Inl (KeyError ''sentence_id'') | Some i \<Rightarrow>
         load_lines ls (m(i \<mapsto> t))))"

definition load_sentences :: "sentence_line list \<Rightarrow> error + sentences" where
  "load_sentences sentences_file = load_lines sentences_file Map.empty"

text \<open>The filter at line 104.\<close>

definition good_sentence :: "ustring \<Rightarrow> bool" where
  "good_sentence text \<longleftrightarrow>
     length text > 10 \<and> \<not> startswith text (u ''='') \<and> \<not> contains text (u ''http'')"

text \<open>
  \<open>sid in sentences\<close> and \<open>sentences[sid]\<close> for an element \<open>sid\<close> of \<open>sentence_ids\<close>,
  which is \<open>None\<close> when the token's \<open>sentence_id\<close> was \<open>null\<close>: the keys of the store are
  strings, so \<open>None\<close> is not among them.
\<close>

definition lookup :: "sentences \<Rightarrow> ustring option \<Rightarrow> ustring option" where
  "lookup sentences sid = (case sid of None \<Rightarrow> None | Some i \<Rightarrow> sentences i)"

text \<open>The first loop (lines 100--105).\<close>

fun collect_good :: "sentences \<Rightarrow> ustring option list \<Rightarrow> ustring list" where
  "collect_good sentences [] = []"
| "collect_good sentences (sid # sids) =
     (case lookup sentences sid of
        None \<Rightarrow> collect_good sentences sids
      | Some t \<Rightarrow>
          (if good_sentence (strip t) then strip t # collect_good sentences sids
           else collect_good sentences sids))"

text \<open>The fallback loop (lines 109--112): the first resolvable id, then \<open>break\<close>.\<close>

fun first_available :: "sentences \<Rightarrow> ustring option list \<Rightarrow> ustring list" where
  "first_available sentences [] = []"
| "first_available sentences (sid # sids) =
     (case lookup sentences sid of
        None \<Rightarrow> first_available sentences sids
      | Some t \<Rightarrow> [strip t])"

text \<open>
  The random generator is the list of the numbers it will still produce. \<open>randbelow n\<close>
  takes the next one, reduced into \<open>{0..<n}\<close>; a generator that has run out yields 0.
\<close>

type_synonym rng = "nat list"

definition randbelow :: "nat \<Rightarrow> rng \<Rightarrow> nat \<times> rng" where
  "randbelow n g = (case g of [] \<Rightarrow> (0, []) | r # g' \<Rightarrow> (r mod n, g'))"

text \<open>
  \<open>random.shuffle(x)\<close>:
  \<^verbatim>\<open>for i in reversed(range(1, len(x))): j = randbelow(i + 1); x[i], x[j] = x[j], x[i]\<close>
\<close>

fun shuffle_from :: "nat \<Rightarrow> 'a list \<Rightarrow> rng \<Rightarrow> 'a list \<times> rng" where
  "shuffle_from 0 x g = (x, g)"
| "shuffle_from (Suc i) x g =
     (let (j, g') = randbelow (Suc i + 1) g
      in shuffle_from i (x[Suc i := x ! j, j := x ! Suc i]) g')"

definition shuffle :: "'a list \<Rightarrow> rng \<Rightarrow> 'a list \<times> rng" where
  "shuffle x g = shuffle_from (length x - 1) x g"

text \<open>
  The loop at lines 133--134:
  \<^verbatim>\<open>while len(selected) < max_examples and remaining: selected.append(remaining.pop())\<close>
\<close>

function fill :: "nat \<Rightarrow> 'a list \<Rightarrow> 'a list \<Rightarrow> 'a list" where
  "fill max_examples selected remaining =
     (if length selected < max_examples \<and> remaining \<noteq> []
      then fill max_examples (selected @ [last remaining]) (butlast remaining)
      else selected)"
  by pat_completeness auto
termination
  by (relation "measure (\<lambda>(m, s, r). length r)") auto

declare fill.simps [simp del]

text \<open>
  \<open>select_example_sentences\<close>. The argument \<open>ids\<close> is the set \<open>sentence_ids\<close> in the
  order in which the two \<open>for\<close> loops iterate over it.
\<close>

definition select_example_sentences ::
  "ustring option list \<Rightarrow> sentences \<Rightarrow> nat \<Rightarrow> rng \<Rightarrow> ustring list \<times> rng" where
  "select_example_sentences ids sentences max_examples g =
     (let good = collect_good sentences ids;
          available_sentences =
            (if good = [] then first_available sentences ids else good)
      in if length available_sentences \<le> max_examples then (available_sentences, g)
         else
           let selected = [available_sentences ! 0];
               selected = (if length available_sentences > 1
                           then selected @ [last available_sentences] else selected);
               selected = (if length available_sentences > 2
                           then selected @
                                [available_sentences ! (length available_sentences div 2)]
                           else selected);
               remaining = filter (\<lambda>s. s \<notin> set selected) available_sentences;
               (remaining, g') = shuffle remaining g;
               selected = fill max_examples selected remaining
           in (take max_examples selected, g'))"

section \<open>Index construction (corpus/index\_builder.py)\<close>

text \<open>
  \<open>Counter.most_common(1)\<close> is \<open>heapq.nlargest(1, items, key=count)\<close>, which is
  \<open>max(items, key=count)\<close>: the first item, in the dict's insertion order, whose count
  is maximal.
\<close>

fun max_by_count :: "('k \<times> nat) \<Rightarrow> ('k \<times> nat) list \<Rightarrow> ('k \<times> nat)" where
  "max_by_count best [] = best"
| "max_by_count best (x # xs) =
     (if snd x > snd best then max_by_count x xs else max_by_count best xs)"

definition most_common_1 :: "('k \<times> nat) list \<Rightarrow> ('k \<times> nat) list" where
  "most_common_1 c = (case c of [] \<Rightarrow> [] | x # xs \<Rightarrow> [max_by_count x xs])"

text \<open>Line 178: \<open>most_common(1)[0][0] if data['feats_counter'] else ''\<close>.\<close>

definition most_common_feats :: "(ustring \<times> nat) list \<Rightarrow> ustring" where
  "most_common_feats c = (if c \<noteq> [] then fst (most_common_1 c ! 0) else [])"

text \<open>
  The placeholder of line 185, a Russian sentence around the quoted wordform
  (code points of the Cyrillic letters written out).
\<close>

definition placeholder :: "ustring \<Rightarrow> ustring" where
  "placeholder wordform =
     [1055, 1088, 1080, 1084, 1077, 1088, 32, 1089, 32, 39] @ wordform @
     [39, 32, 1085, 1077, 1076, 1086, 1089, 1090, 1091, 1087, 1077, 1085, 46]"

text \<open>
  One row of the table \<open>wordforms\<close> (without the autoincrement \<open>id\<close>, which is the row's
  position). The column \<open>sentences\<close> holds \<open>json.dumps(example_sentences)\<close>; the model
  keeps the list that is serialised.
\<close>

record row =
  r_wordform :: ustring
  r_lemma :: "ustring option"
  r_upos :: "ustring option"
  r_feats :: ustring
  r_frequency :: nat
  r_sentences :: "ustring list"

record stats =
  total_wordforms :: nat
  pos_distribution :: "(ustring option \<times> nat) list"
  total_examples :: nat
  feats_coverage :: "ustring list"

record final_stats = stats +
  avg_examples_per_wordform :: rat
  unique_feats_count :: nat

definition init_stats :: stats where
  "init_stats = \<lparr>total_wordforms = 0, pos_distribution = [], total_examples = 0,
                  feats_coverage = []\<rparr>"

text \<open>
  Lines 177--197 for one item of \<open>wordforms_data\<close>. \<open>set_order\<close> gives the order in which
  Python iterates over the set \<open>sentence_ids\<close>.
\<close>

definition make_row ::
  "(ustring option list \<Rightarrow> ustring option list) \<Rightarrow> sentences \<Rightarrow> ustring \<Rightarrow> wordform_rec \<Rightarrow> rng \<Rightarrow> row \<times> rng"
  where
  "make_row set_order sentences wordform data g =
     (let (example_sentences, g') =
            select_example_sentences (set_order (sentence_ids data)) sentences 5 g;
          example_sentences =
            (if example_sentences = [] then [placeholder wordform] else example_sentences)
      in (\<lparr>r_wordform = wordform, r_lemma = wf_lemma data, r_upos = upos data,
            r_feats = most_common_feats (feats_counter data),
            r_frequency = frequency data, r_sentences = example_sentences\<rparr>, g'))"

text \<open>Lines 199--204.\<close>

definition update_stats :: "row \<Rightarrow> stats \<Rightarrow> stats" where
  "update_stats r s =
     s\<lparr>total_wordforms := total_wordforms s + 1,
       pos_distribution := counter_incr (r_upos r) (pos_distribution s),
       total_examples := total_examples s + length (r_sentences r),
       feats_coverage := (if r_feats r \<noteq> [] then set_add (r_feats r) (feats_coverage s)
                          else feats_coverage s)\<rparr>"

text \<open>The loop at lines 176--204: \<open>insert_data\<close>, the statistics and the generator.\<close>

fun prepare ::
  "(ustring option list \<Rightarrow> ustring option list) \<Rightarrow> sentences \<Rightarrow> wordforms \<Rightarrow> row list \<Rightarrow> stats \<Rightarrow> rng \<Rightarrow>
   row list \<times> stats \<times> rng" where
  "prepare set_order sentences [] insert_data s g = (insert_data, s, g)"
| "prepare set_order sentences ((wordform, data) # items) insert_data s g =
     (let (r, g') = make_row set_order sentences wordform data g
      in prepare set_order sentences items (insert_data @ [r]) (update_stats r s) g')"

text \<open>
  The file \<open>db_file\<close>: absent (\<open>None\<close>) or a database whose table \<open>wordforms\<close> holds the
  committed rows.
\<close>

type_synonym store = "row list option"

text \<open>
  \<open>executemany\<close> inside the transaction opened at line 209. \<open>fault\<close> is the index of the
  first row whose \<open>INSERT\<close> the database layer fails (\<open>None\<close>: no failure); a row whose
  \<open>lemma\<close> or \<open>upos\<close> is \<open>None\<close> violates \<open>NOT NULL\<close>. \<open>pending\<close> are the rows inserted so far
  and not yet committed.
\<close>

fun executemany :: "nat option \<Rightarrow> nat \<Rightarrow> row list \<Rightarrow> row list \<Rightarrow> error + row list" where
  "executemany fault i pending [] = Inr pending"
| "executemany fault i pending (r # rs) =
     (if fault = Some i \<or> r_lemma r = None \<or> r_upos r = None then Inl DbError
      else executemany fault (i + 1) (pending @ [r]) rs)"

text \<open>
  \<open>create_sqlite_database\<close>: the result or the exception, the file \<open>db_file\<close> afterwards,
  and the generator.
  \<^item> Lines 143--144 remove an existing file; \<open>connect\<close> and \<open>CREATE TABLE\<close> (lines
    146--163, outside any transaction) then leave a database with an empty table
    (\<open>CREATE TABLE\<close> would fail on a file that still held the table).
  \<^item> When \<open>executemany\<close> raises, \<open>commit\<close> is not reached: the pending rows are rolled
    back and the file keeps the empty table.
  \<^item> Indexes, \<open>VACUUM\<close> and \<open>ANALYZE\<close> do not change the rows.
  \<^item> Line 231 divides by \<open>total_wordforms\<close>; the quotient is kept exact.
\<close>

definition create_sqlite_database ::
  "(ustring option list \<Rightarrow> ustring option list) \<Rightarrow> nat option \<Rightarrow> wordforms \<Rightarrow> sentences \<Rightarrow> rng \<Rightarrow> store \<Rightarrow>
   (error + final_stats) \<times> store \<times> rng" where
  "create_sqlite_database set_order fault wordforms_data sentences g db_file =
     (let removed = (if db_file \<noteq> None then None else db_file)
      in case removed of
           Some rows \<Rightarrow> (Inl DbError, removed, g)
         | None \<Rightarrow>
             (let created = Some [];
                  (insert_data, s, g') =
                     prepare set_order sentences wordforms_data [] init_stats g
              in case executemany fault 0 [] insert_data of
                   Inl e \<Rightarrow> (Inl e, created, g')
                 | Inr rows \<Rightarrow>
                     (let committed = Some rows
                      in if total_wordforms s = 0
                         then (Inl ZeroDivisionError, committed, g')
                         else (Inr (stats.extend s
                                 \<lparr>avg_examples_per_wordform =
                                    Fract (int (total_examples s)) (int (total_wordforms s)),
                                  unique_feats_count = length (feats_coverage s)\<rparr>),
                               committed, g'))))"

text \<open>
  \<open>create_jsonl_export\<close>: one record per wordform, in the order of \<open>sorted\<close> on the items
  (the keys are distinct, so the order is that of the wordforms, by code points).
\<close>

fun export_rows ::
  "(ustring option list \<Rightarrow> ustring option list) \<Rightarrow> sentences \<Rightarrow> wordforms \<Rightarrow> rng \<Rightarrow> row list \<times> rng" where
  "export_rows set_order sentences [] g = ([], g)"
| "export_rows set_order sentences ((wordform, data) # items) g =
     (let (r, g') = make_row set_order sentences wordform data g;
          (rs, g'') = export_rows set_order sentences items g'
      in (r # rs, g''))"

definition create_jsonl_export ::
  "(ustring option list \<Rightarrow> ustring option list) \<Rightarrow> wordforms \<Rightarrow> sentences \<Rightarrow> rng \<Rightarrow> row list \<times> rng" where
  "create_jsonl_export set_order wordforms_data sentences g =
     export_rows set_order sentences (sort_key fst wordforms_data) g"

text \<open>The three output files of \<open>main\<close>.\<close>

record files =
  db :: store
  export :: "row list option"
  stats_file :: "final_stats option"

text \<open>
  \<open>main\<close>. The two input files are \<open>None\<close> when absent. Any exception inside the \<open>try\<close>
  block is caught and reported, and the steps after the failing one are not run.
\<close>

definition main ::
  "(ustring option list \<Rightarrow> ustring option list) \<Rightarrow> nat option \<Rightarrow> sentence_line list option \<Rightarrow>
   line list option \<Rightarrow> rng \<Rightarrow> files \<Rightarrow> files" where
  "main set_order fault sentences_file morphology_file g fs =
     (case sentences_file of None \<Rightarrow> fs | Some sl \<Rightarrow>
      (case morphology_file of None \<Rightarrow> fs | Some ml \<Rightarrow>
       (case load_sentences sl of Inl e \<Rightarrow> fs | Inr sentences \<Rightarrow>
        (case process_morphology_data ml of Inl e \<Rightarrow> fs | Inr st \<Rightarrow>
         (case create_sqlite_database set_order fault (wordforms st) sentences g (db fs) of
            (Inl e, db', g') \<Rightarrow> fs\<lparr>db := db'\<rparr>
          | (Inr s, db', g') \<Rightarrow>
              (let (ex, g'') = create_jsonl_export set_order (wordforms st) sentences g'
               in fs\<lparr>db := db', export := Some ex, stats_file := Some s\<rparr>))))))"

subsection \<open>Kinds of input lines\<close>

text \<open>
  Lines of a stream in the expected format, each of which the aggregation loop gets past:
  blank, not JSON, or a well-formed token.
\<close>

definition tolerated :: "line \<Rightarrow> bool" where
  "tolerated l \<longleftrightarrow> l = Blank \<or> l = NotJson \<or> well_formed l"

text \<open>Lines that add nothing to the result: blank, not JSON, or a token with a blank form.\<close>

definition ignored :: "line \<Rightarrow> bool" where
  "ignored l \<longleftrightarrow> l = Blank \<or> l = NotJson \<or>
     (\<exists>form lem pos feats sid. l = token_line form lem pos feats sid \<and> strip form = [])"

subsection \<open>Auxiliary notions for the selection\<close>

text \<open>The stripped texts of the sentence store.\<close>

definition texts :: "sentences \<Rightarrow> ustring set" where
  "texts sentences = {strip t |t. t \<in> ran sentences}"

text \<open>The list \<open>available_sentences\<close> after the fallback (line 112).\<close>

definition available :: "sentences \<Rightarrow> ustring option list \<Rightarrow> ustring list" where
  "available sentences ids =
     (if collect_good sentences ids = [] then first_available sentences ids
      else collect_good sentences ids)"

section \<open>Candidate keys (build\_examples\_stream.py)\<close>

text \<open>
  \<open>str.isdigit\<close> for one code point. Below U+0180 the digits are \<open>0\<close>--\<open>9\<close> and the
  superscripts U+00B2, U+00B3, U+00B9; which of the higher code points are digits depends
  on the Unicode tables of the interpreter and is the parameter \<open>other_digit\<close>.
\<close>

definition isdigit :: "(nat \<Rightarrow> bool) \<Rightarrow> nat \<Rightarrow> bool" where
  "isdigit other_digit c \<longleftrightarrow>
     (if c < 384 then (48 \<le> c \<and> c \<le> 57) \<or> c = 178 \<or> c = 179 \<or> c = 185
      else other_digit c)"

text \<open>
  The character class of the pattern at line 96: \<open>A-Z\<close>, \<open>a-z\<close>, the range from U+00C0 to
  U+017E, and the Slovak letters it lists one by one (all of them inside that range).
\<close>

definition listed_letters :: "nat list" where
  "listed_letters =
     [193, 225, 196, 228, 268, 269, 270, 271, 201, 233, 205, 237, 313, 314, 317, 318,
      327, 328, 211, 243, 212, 244, 340, 341, 344, 345, 352, 353, 356, 357, 218, 250,
      221, 253, 381, 382]"

definition in_class :: "nat \<Rightarrow> bool" where
  "in_class c \<longleftrightarrow>
     (65 \<le> c \<and> c \<le> 90) \<or> (97 \<le> c \<and> c \<le> 122) \<or> (192 \<le> c \<and> c \<le> 382) \<or>
     c \<in> set listed_letters"

text \<open>\<open>re.fullmatch(r"[...]{2,30}", key)\<close> succeeds.\<close>

definition fullmatch_key :: "ustring \<Rightarrow> bool" where
  "fullmatch_key key \<longleftrightarrow> 2 \<le> length key \<and> length key \<le> 30 \<and> (\<forall>c\<in>set key. in_class c)"

text \<open>
  \<open>str.lower()\<close> on one character of the class (the only characters it is applied to;
  other code points are left as they are by this function). U+0130 becomes the two code
  points U+0069 U+0307, U+0178 becomes U+00FF.
\<close>

definition lower_char :: "nat \<Rightarrow> ustring" where
  "lower_char c =
     (if 65 \<le> c \<and> c \<le> 90 then [c + 32]
      else if 192 \<le> c \<and> c \<le> 222 \<and> c \<noteq> 215 then [c + 32]
      else if c = 304 then [105, 775]
      else if c = 376 then [255]
      else if (256 \<le> c \<and> c \<le> 311 \<or> 330 \<le> c \<and> c \<le> 375) \<and> even c then [c + 1]
      else if (313 \<le> c \<and> c \<le> 328 \<or> 377 \<le> c \<and> c \<le> 382) \<and> odd c then [c + 1]
      else [c])"

definition lower :: "ustring \<Rightarrow> ustring" where
  "lower s = concat (map lower_char s)"

text \<open>The characters that \<open>lower_char\<close> maps to something else.\<close>

definition changes :: "nat \<Rightarrow> bool" where
  "changes c \<longleftrightarrow>
     (65 \<le> c \<and> c \<le> 90) \<or> (192 \<le> c \<and> c \<le> 222 \<and> c \<noteq> 215) \<or> c = 304 \<or> c = 376 \<or>
     ((256 \<le> c \<and> c \<le> 311 \<or> 330 \<le> c \<and> c \<le> 375) \<and> even c) \<or>
     ((313 \<le> c \<and> c \<le> 328 \<or> 377 \<le> c \<and> c \<le> 382) \<and> odd c)"

text \<open>
  Lines 85--99 of \<open>process_page\<close>: the key under which the page's examples are stored, or
  \<open>None\<close> when the page is dropped.
\<close>

definition page_key :: "(nat \<Rightarrow> bool) \<Rightarrow> ustring \<Rightarrow> ustring \<Rightarrow> ustring option" where
  "page_key other_digit current_title current_text =
     (if current_title = [] \<or> current_text = [] then None
      else let key = strip current_title
           in if 58 \<in> set key \<or> 32 \<in> set key \<or> (\<exists>ch\<in>set key. isdigit other_digit ch)
              then None
              else if \<not> fullmatch_key key then None
              else Some (lower key))"

text \<open>
  \<open>list(dict.fromkeys(lines))\<close>: the distinct elements in the order of their first
  occurrence.
\<close>

fun fromkeys_into :: "'a list \<Rightarrow> 'a list \<Rightarrow> 'a list" where
  "fromkeys_into seen [] = seen"
| "fromkeys_into seen (x # xs) =
     (if x \<in> set seen then fromkeys_into seen xs else fromkeys_into (seen @ [x]) xs)"

definition fromkeys :: "'a list \<Rightarrow> 'a list" where
  "fromkeys xs = fromkeys_into [] xs"

text \<open>
  The rest of \<open>process_page\<close> (lines 101--135). The example lines found in the text by the
  regular expressions of lines 104--127 are given by the parameter \<open>find_lines\<close>; the
  handler's dict \<open>examples\<close> is kept by value.
\<close>

record handler =
  examples :: "(ustring \<times> ustring list) list"
  total_pages :: nat
  pages_with_examples :: nat

fun extend_entry ::
  "ustring \<Rightarrow> ustring list \<Rightarrow> (ustring \<times> ustring list) list \<Rightarrow> (ustring \<times> ustring list) list"
  where
  "extend_entry k ls [] = [(k, [] @ ls)]"
| "extend_entry k ls ((k', v) # d) =
     (if k = k' then (k', v @ ls) # d else (k', v) # extend_entry k ls d)"

definition process_page ::
  "(nat \<Rightarrow> bool) \<Rightarrow> (ustring \<Rightarrow> ustring list) \<Rightarrow> ustring \<Rightarrow> ustring \<Rightarrow> handler \<Rightarrow> handler" where
  "process_page other_digit find_lines current_title current_text self =
     (case page_key other_digit current_title current_text of
        None \<Rightarrow> self
      | Some key \<Rightarrow>
          (let lines = find_lines current_text
           in if lines \<noteq> []
              then self\<lparr>examples := extend_entry key (take 1 (fromkeys lines)) (examples self),
                      pages_with_examples := pages_with_examples self + 1\<rparr>
              else self))"

section \<open>Merging example maps (build\_examples\_stream.py)\<close>

text \<open>
  \<open>merge_and_clean\<close> works on dicts whose values are list objects, copies the dict
  shallowly and extends the lists in place. The list objects live in a heap: a reference is
  an index into it, a dict maps its keys (in insertion order) to references.
\<close>

type_synonym ref = nat
type_synonym heap = "ustring list list"
type_synonym pydict = "(ustring \<times> ref) list"

text \<open>\<open>a.extend(l)\<close> for two list objects (possibly the same one).\<close>

definition extend :: "heap \<Rightarrow> ref \<Rightarrow> ref \<Rightarrow> heap" where
  "extend h a l = h[a := h ! a @ h ! l]"

text \<open>The inner loop, lines 154--157, over the items of one source dict.\<close>

fun merge_items :: "(ustring \<times> ref) list \<Rightarrow> heap \<times> pydict \<Rightarrow> heap \<times> pydict" where
  "merge_items [] hm = hm"
| "merge_items ((word, lines) # items) (h, merged) =
     (case map_of merged word of
        None \<Rightarrow>
          (let a = length h
           in merge_items items (extend (h @ [[]]) a lines, merged @ [(word, a)]))
      | Some a \<Rightarrow> merge_items items (extend h a lines, merged))"

text \<open>The outer loop, line 153.\<close>

fun merge_dicts :: "pydict list \<Rightarrow> heap \<times> pydict \<Rightarrow> heap \<times> pydict" where
  "merge_dicts [] hm = hm"
| "merge_dicts (d # ds) hm = merge_dicts ds (merge_items d hm)"

text \<open>
  \<open>merge_and_clean\<close>: the heap after the call and the returned dict \<open>cleaned\<close>. The lists
  of \<open>cleaned\<close> are new objects that nothing else refers to, so \<open>cleaned\<close> is given by
  value. \<open>existing_dict.copy()\<close> is a new dict with the same references.
\<close>

definition merge_and_clean ::
  "heap \<Rightarrow> pydict \<Rightarrow> pydict list \<Rightarrow> heap \<times> (ustring \<times> ustring list) list" where
  "merge_and_clean h existing_dict new_dicts =
     (let merged = existing_dict;
          (h', merged) = merge_dicts new_dicts (h, merged)
      in (h', map (\<lambda>(word, lines). (word, take 1 (fromkeys (h' ! lines)))) merged))"

text \<open>The contents of a dict: each key with the current value of its list.\<close>

definition deref :: "heap \<Rightarrow> pydict \<Rightarrow> (ustring \<times> ustring list) list" where
  "deref h d = map (\<lambda>(word, a). (word, h ! a)) d"

text \<open>A dict of a heap: distinct keys, distinct list objects, all of them allocated.\<close>

definition valid_dict :: "heap \<Rightarrow> pydict \<Rightarrow> bool" where
  "valid_dict h d \<longleftrightarrow>
     distinct (map fst d) \<and> distinct (map snd d) \<and> (\<forall>a\<in>set (map snd d). a < length h)"

text \<open>No list object of \<open>d\<close> is a list object of \<open>e\<close>.\<close>

definition separate :: "pydict \<Rightarrow> pydict \<Rightarrow> bool" where
  "separate d e \<longleftrightarrow> set (map snd d) \<inter> set (map snd e) = {}"

text \<open>The examples a source dict holds for a word.\<close>

definition source_examples :: "heap \<Rightarrow> ustring \<Rightarrow> pydict \<Rightarrow> ustring list" where
  "source_examples h word d = (case map_of d word of None \<Rightarrow> [] | Some l \<Rightarrow> h ! l)"

text \<open>
  The merge on values: the items of the sources, each with the content of its list, are
  folded into a dict given by value (\<open>extend_entry\<close> appends to an entry or creates it).
\<close>

fun merge_values ::
  "(ustring \<times> ustring list) list \<Rightarrow> (ustring \<times> ustring list) list \<Rightarrow>
   (ustring \<times> ustring list) list" where
  "merge_values [] M = M"
| "merge_values ((word, ls) # items) M = merge_values items (extend_entry word ls M)"

text \<open>Lines 159--163 on a dict given by value.\<close>

definition clean :: "(ustring \<times> ustring list) list \<Rightarrow> (ustring \<times> ustring list) list" where
  "clean M = map (\<lambda>(word, ls). (word, take 1 (fromkeys ls))) M"

text \<open>All the examples that a list of items holds for a word, in order.\<close>

definition examples_for :: "ustring \<Rightarrow> (ustring \<times> ustring list) list \<Rightarrow> ustring list" where
  "examples_for word items = concat (map snd (filter (\<lambda>p. fst p = word) items))"

text \<open>
  Every item's word is a key of \<open>M\<close>, and its examples, unless there are none, have been
  added to a non-empty list.
\<close>

definition absorbs ::
  "(ustring \<times> ustring list) list \<Rightarrow> (ustring \<times> ustring list) list \<Rightarrow> bool" where
  "absorbs M items \<longleftrightarrow>
     (\<forall>(word, ls)\<in>set items. \<exists>v. map_of M word = Some v \<and> (ls \<noteq> [] \<longrightarrow> v \<noteq> []))"

text \<open>A dict whose lists hold at most one example each.\<close>

definition cleaned :: "heap \<Rightarrow> pydict \<Rightarrow> bool" where
  "cleaned h d \<longleftrightarrow> (\<forall>a\<in>set (map snd d). length (h ! a) \<le> 1)"



section \<open>Properties of the aggregation\<close>

lemma map_of_with_wordform:
  "map_of (with_wordform k f d) k' =
     (if k' = k then Some (f (case map_of d k of None \<Rightarrow> new_wordform | Some v \<Rightarrow> v))
      else map_of d k')"
  by (induction k f d rule: with_wordform.induct) auto

lemma all_records_init: "all_records P init_state"
  by (simp add: all_records_def init_state_def)

lemma all_records_process_line:
  assumes "process_line n l st = Inr st'" "all_records P st"
    and new: "\<And>W lem pos feats sid.
      strip W \<noteq> [] \<Longrightarrow> P W (update_wordform lem pos feats sid new_wordform)"
    and upd: "\<And>W r lem pos feats sid. P W r \<Longrightarrow> P W (update_wordform lem pos feats sid r)"
  shows "all_records P st'"
  using assms(1,2)
  by (auto simp: process_line_def all_records_def map_of_with_wordform new upd
      split: line.splits option.splits if_splits)

lemma all_records_process_lines:
  assumes "process_lines n ls st = Inr st'" "all_records P st"
    and new: "\<And>W lem pos feats sid.
      strip W \<noteq> [] \<Longrightarrow> P W (update_wordform lem pos feats sid new_wordform)"
    and upd: "\<And>W r lem pos feats sid. P W r \<Longrightarrow> P W (update_wordform lem pos feats sid r)"
  shows "all_records P st'"
  using assms(1,2)
proof (induction ls arbitrary: n st)
  case Nil
  then show ?case by simp
next
  case (Cons l ls)
  then obtain st1 where 1: "process_line n l st = Inr st1"
    and 2: "process_lines (n + 1) ls st1 = Inr st'"
    by (auto split: sum.splits)
  from all_records_process_line[OF 1 Cons.prems(2) new upd] have "all_records P st1" by blast
  with Cons.IH[OF 2] show ?case by blast
qed

lemma reservoir_ok_update:
  "reservoir_ok r \<Longrightarrow> reservoir_ok (update_wordform lem pos feats sid r)"
  by (auto simp: reservoir_ok_def update_wordform_def Let_def set_add_def)

lemma reservoir_ok_new: "reservoir_ok (update_wordform lem pos feats sid new_wordform)"
  by (rule reservoir_ok_update) (simp add: reservoir_ok_def new_wordform_def)

lemma keyed_new: "strip W \<noteq> [] \<Longrightarrow> keyed W (update_wordform lem pos feats sid new_wordform)"
  by (simp add: keyed_def)

lemma keyed_update: "keyed W r \<Longrightarrow> keyed W (update_wordform lem pos feats sid r)"
  by (simp add: keyed_def)

lemmas run_simps =
  process_morphology_data_def init_state_def process_line_def token_line_def py_value_def
  update_wordform_def new_wordform_def set_add_def strip_def isspace_def Let_def u_def

subsection \<open>Lemma and part of speech of a wordform\<close>

lemma well_formed_token:
  "well_formed l \<Longrightarrow> \<exists>form lem pos feats sid. l = token_line form lem pos feats sid"
proof (cases l)
  case (Object d)
  assume "well_formed l"
  with Object show ?thesis
    by (cases d) (auto simp: well_formed_def is_str_def token_line_def split: json_field.splits)
qed (simp_all add: well_formed_def)

lemma process_line_token:
  "process_line n (token_line form lem pos feats sid) st =
     (if strip form = [] then Inr st
      else Inr (st\<lparr>wordforms :=
                     with_wordform form
                       (update_wordform (Some lem) (Some pos) (Some feats) (Some sid))
                       (wordforms st),
                   processed_tokens := processed_tokens st + 1\<rparr>))"
  by (simp add: process_line_def token_line_def py_value_def)

lemma update_keeps_lemma:
  "wf_lemma r \<noteq> None \<Longrightarrow>
     wf_lemma (update_wordform lem pos feats sid r) = wf_lemma r \<and>
     upos (update_wordform lem pos feats sid r) = upos r"
  by (auto simp: update_wordform_def Let_def)

lemma update_new_lemma:
  "wf_lemma (update_wordform lem pos feats sid new_wordform) = lem \<and>
   upos (update_wordform lem pos feats sid new_wordform) = pos"
  by (auto simp: update_wordform_def Let_def new_wordform_def)

lemma named_process_line:
  assumes "process_line n l st = Inr st'" "all_records named st" "tolerated l"
  shows "all_records named st'"
proof -
  from assms(3) consider "l = Blank" | "l = NotJson" | "well_formed l"
    by (auto simp: tolerated_def)
  then show ?thesis
  proof cases
    case 1
    with assms(1,2) show ?thesis by (simp add: process_line_def)
  next
    case 2
    with assms(1,2) show ?thesis by (auto simp: process_line_def all_records_def)
  next
    case 3
    then obtain form lem pos feats sid where l: "l = token_line form lem pos feats sid"
      using well_formed_token by blast
    show ?thesis
    proof (cases "strip form = []")
      case True
      with assms(1,2) l show ?thesis by (simp add: process_line_token)
    next
      case False
      with assms(1) l have st': "wordforms st' =
          with_wordform form (update_wordform (Some lem) (Some pos) (Some feats) (Some sid))
            (wordforms st)"
        by (auto simp: process_line_token)
      show ?thesis
        unfolding all_records_def st' map_of_with_wordform
        using assms(2) False
        by (auto simp: all_records_def named_def update_new_lemma update_keeps_lemma
            split: option.splits if_splits)
    qed
  qed
qed

lemma find_append_Some: "List.find P xs = Some x \<Longrightarrow> List.find P (xs @ ys) = Some x"
  by (induction xs) (auto split: if_splits)

lemma first_seen_gen:
  assumes "process_lines n ls st = Inr st'" "all_records named st" "strip W \<noteq> []"
    and "\<forall>l\<in>set ls. tolerated l"
  shows "case map_of (wordforms st) W of
           Some r0 \<Rightarrow> (\<exists>r. map_of (wordforms st') W = Some r \<and>
                          wf_lemma r = wf_lemma r0 \<and> upos r = upos r0)
         | None \<Rightarrow>
            (case first_token W ls of
               None \<Rightarrow> map_of (wordforms st') W = None
             | Some l \<Rightarrow> (\<exists>d r. l = Object d \<and> map_of (wordforms st') W = Some r \<and>
                            wf_lemma r = py_value (j_lemma d) \<and>
                            upos r = py_value (j_upos d)))"
  using assms(1,2,4)
proof (induction ls arbitrary: n st)
  case Nil
  then show ?case by (simp add: first_token_def split: option.splits)
next
  case (Cons l ls)
  then obtain st1 where 1: "process_line n l st = Inr st1"
    and 2: "process_lines (n + 1) ls st1 = Inr st'"
    by (auto split: sum.splits)
  from Cons.prems(3) have tol: "tolerated l" and tols: "\<forall>l\<in>set ls. tolerated l" by simp_all
  have inv1: "all_records named st1"
    by (rule named_process_line[OF 1 Cons.prems(2) tol])
  note IH = Cons.IH[OF 2 inv1 tols]
  show ?case
  proof (cases "well_formed l \<and> has_form W l")
    case True
    then obtain form lem pos feats sid where l: "l = token_line form lem pos feats sid"
      using well_formed_token by blast
    with True have form: "form = W" by (simp add: has_form_def token_line_def)
    have st1: "wordforms st1 =
        with_wordform W (update_wordform (Some lem) (Some pos) (Some feats) (Some sid))
          (wordforms st)"
      using 1 l form assms(3) by (auto simp: process_line_token)
    show ?thesis
    proof (cases "map_of (wordforms st) W")
      case None
      then have "map_of (wordforms st1) W =
          Some (update_wordform (Some lem) (Some pos) (Some feats) (Some sid) new_wordform)"
        by (simp add: st1 map_of_with_wordform)
      with IH None True l form show ?thesis
        by (auto simp: first_token_def update_new_lemma token_line_def py_value_def)
    next
      case (Some r0)
      then have r0: "wf_lemma r0 \<noteq> None"
        using Cons.prems(2) by (auto simp: all_records_def named_def)
      from Some have "map_of (wordforms st1) W =
          Some (update_wordform (Some lem) (Some pos) (Some feats) (Some sid) r0)"
        by (simp add: st1 map_of_with_wordform)
      with IH Some update_keeps_lemma[OF r0] show ?thesis
        by auto
    qed
  next
    case False
    from tol consider "l = Blank" | "l = NotJson" | "well_formed l"
      by (auto simp: tolerated_def)
    then have same: "map_of (wordforms st1) W = map_of (wordforms st) W"
    proof cases
      case 1
      with \<open>process_line n l st = Inr st1\<close> show ?thesis by (simp add: process_line_def)
    next
      case 2
      with \<open>process_line n l st = Inr st1\<close> show ?thesis by (auto simp: process_line_def)
    next
      case 3
      then obtain form lem pos feats sid where l: "l = token_line form lem pos feats sid"
        using well_formed_token by blast
      with False 3 have "form \<noteq> W" by (simp add: has_form_def token_line_def)
      with \<open>process_line n l st = Inr st1\<close> l show ?thesis
        by (auto simp: process_line_token map_of_with_wordform split: if_splits)
    qed
    from False have "first_token W (l # ls) = first_token W ls"
      by (auto simp: first_token_def)
    with IH same show ?thesis by (simp split: option.splits)
  qed
qed


lemma first_token_well_formed:
  "first_token W ls = Some l \<Longrightarrow> well_formed l \<and> has_form W l \<and> l \<in> set ls"
  by (auto simp: first_token_def find_Some_iff)

text \<open>
  On a stream in which every line is blank, not JSON or a well-formed token (no missing
  and no \<open>null\<close> field), the record of a wordform \<open>W\<close> holds the lemma and part of
  speech of the first token whose form is \<open>W\<close>, and no continuation of the stream by
  such lines changes them.
\<close>

lemma first_seen_wins_on_strings:
  assumes "\<forall>l\<in>set morphology_file. tolerated l"
    and "process_morphology_data morphology_file = Inr st"
    and "map_of (wordforms st) W = Some r"
  shows "strip W \<noteq> [] \<and>
     (\<exists>d. first_token W morphology_file = Some (Object d) \<and>
          wf_lemma r = py_value (j_lemma d) \<and> upos r = py_value (j_upos d) \<and>
          wf_lemma r \<noteq> None \<and> upos r \<noteq> None) \<and>
     (\<forall>later st2. (\<forall>l\<in>set later. tolerated l) \<longrightarrow>
        process_morphology_data (morphology_file @ later) = Inr st2 \<longrightarrow>
        (\<exists>r2. map_of (wordforms st2) W = Some r2 \<and>
              wf_lemma r2 = wf_lemma r \<and> upos r2 = upos r))"
proof -
  have run: "process_lines 1 morphology_file init_state = Inr st"
    using assms(2) by (simp add: process_morphology_data_def)
  have W: "strip W \<noteq> []"
  proof -
    have "all_records keyed st"
      by (rule all_records_process_lines[OF run all_records_init])
        (simp_all add: keyed_new keyed_update)
    with assms(3) show ?thesis by (simp add: all_records_def keyed_def)
  qed
  have none: "map_of (wordforms init_state) W = None" by (simp add: init_state_def)
  have first: "\<exists>d. first_token W ls = Some (Object d) \<and>
      wf_lemma r' = py_value (j_lemma d) \<and> upos r' = py_value (j_upos d)"
    if "process_lines 1 ls init_state = Inr st'" "map_of (wordforms st') W = Some r'"
      "\<forall>l\<in>set ls. tolerated l"
    for ls st' r'
    using first_seen_gen[OF that(1) all_records_init W that(3)] that(2) none
    by (auto split: option.splits)
  from first[OF run assms(3) assms(1)] obtain d where
    d: "first_token W morphology_file = Some (Object d)"
    "wf_lemma r = py_value (j_lemma d)" "upos r = py_value (j_upos d)" by blast
  from first_token_well_formed[OF d(1)] have "is_str (j_lemma d)" "is_str (j_upos d)"
    by (simp_all add: well_formed_def)
  with d(2,3) have nn: "wf_lemma r \<noteq> None" "upos r \<noteq> None"
    by (auto simp: is_str_def py_value_def split: json_field.splits)
  have later: "\<exists>r2. map_of (wordforms st2) W = Some r2 \<and>
      wf_lemma r2 = wf_lemma r \<and> upos r2 = upos r"
    if "\<forall>l\<in>set later. tolerated l"
      "process_morphology_data (morphology_file @ later) = Inr st2" for later st2
  proof -
    have run2: "process_lines 1 (morphology_file @ later) init_state = Inr st2"
      using that(2) by (simp add: process_morphology_data_def)
    have tol2: "\<forall>l\<in>set (morphology_file @ later). tolerated l"
      using assms(1) that(1) by auto
    have ft: "first_token W (morphology_file @ later) = Some (Object d)"
      using d(1) by (simp add: first_token_def find_append_Some)
    from first_seen_gen[OF run2 all_records_init W tol2] none ft d(2,3)
    show ?thesis by auto
  qed
  from W d nn later show ?thesis by blast
qed

text \<open>
  Claim C3 fails on the code. A line whose five keys are present is never skipped, also
  when a value is \<open>null\<close>: the loop stores what the line holds. The test
  \<open>wf['lemma'] is None\<close> of line 67 stands for "no token of this wordform has been seen"
  (the comment at line 66: first occurrence), but it holds as well after a token whose
  lemma is \<open>null\<close>. Two streams for the wordform \<open>a\<close>, both processed without an exception:
  \<^item> a token with lemma \<open>l1\<close> and upos \<open>null\<close>, then the well-formed token with lemma
    \<open>l2\<close> and upos \<open>Y\<close>: the first well-formed token of the form is the second line, and
    the record holds \<open>l1\<close> and \<open>None\<close>, not \<open>l2\<close> and \<open>Y\<close>;
  \<^item> a token with lemma \<open>null\<close> and upos \<open>X\<close>, then the same well-formed token: after the
    first line the record holds \<open>None\<close> and \<open>X\<close>, and the later token changes both, to
    \<open>l2\<close> and \<open>Y\<close>.
\<close>

theorem null_field_breaks_first_seen_wins:
  "process_morphology_data
     [Object \<lparr>j_form = Str (u ''a''), j_lemma = Str (u ''l1''), j_upos = Null,
              j_feats = Str [], j_sentence_id = Str (u ''s1'')\<rparr>,
      token_line (u ''a'') (u ''l2'') (u ''Y'') [] (u ''s2'')] =
   Inr \<lparr>wordforms =
          [(u ''a'', \<lparr>wf_lemma = Some (u ''l1''), upos = None,
                     feats_counter = [([], 2)], frequency = 2,
                     sentence_ids = [Some (u ''s1''), Some (u ''s2'')]\<rparr>)],
        processed_tokens = 2, warnings = []\<rparr> \<and>
   first_token (u ''a'')
     [Object \<lparr>j_form = Str (u ''a''), j_lemma = Str (u ''l1''), j_upos = Null,
              j_feats = Str [], j_sentence_id = Str (u ''s1'')\<rparr>,
      token_line (u ''a'') (u ''l2'') (u ''Y'') [] (u ''s2'')] =
   Some (token_line (u ''a'') (u ''l2'') (u ''Y'') [] (u ''s2'')) \<and>
   process_morphology_data
     [Object \<lparr>j_form = Str (u ''a''), j_lemma = Null, j_upos = Str (u ''X''),
              j_feats = Str [], j_sentence_id = Str (u ''s1'')\<rparr>] =
   Inr \<lparr>wordforms =
          [(u ''a'', \<lparr>wf_lemma = None, upos = Some (u ''X''),
                     feats_counter = [([], 1)], frequency = 1,
                     sentence_ids = [Some (u ''s1'')]\<rparr>)],
        processed_tokens = 1, warnings = []\<rparr> \<and>
   process_morphology_data
     [Object \<lparr>j_form = Str (u ''a''), j_lemma = Null, j_upos = Str (u ''X''),
              j_feats = Str [], j_sentence_id = Str (u ''s1'')\<rparr>,
      token_line (u ''a'') (u ''l2'') (u ''Y'') [] (u ''s2'')] =
   Inr \<lparr>wordforms =
          [(u ''a'', \<lparr>wf_lemma = Some (u ''l2''), upos = Some (u ''Y''),
                     feats_counter = [([], 2)], frequency = 2,
                     sentence_ids = [Some (u ''s1''), Some (u ''s2'')]\<rparr>)],
        processed_tokens = 2, warnings = []\<rparr>"
  by (simp add: run_simps first_token_def well_formed_def has_form_def is_str_def)

theorem null_field_breaks_first_seen_wins_witness:
  "wf_lemma (snd (hd (wordforms (projr (process_morphology_data
     [Object \<lparr>j_form = Str (u ''a''), j_lemma = Null, j_upos = Str (u ''X''),
              j_feats = Str [], j_sentence_id = Str (u ''s1'')\<rparr>,
      token_line (u ''a'') (u ''l2'') (u ''Y'') [] (u ''s2'')]))))) = Some (u ''l2'')"
  using null_field_breaks_first_seen_wins by simp

subsection \<open>The bounded sentence-id reservoir\<close>

text \<open>
  Claim C4. At every point of the aggregation (after any number \<open>k\<close> of lines of the
  stream), the sentence-id reservoir of every wordform holds at most 10 identifiers, all
  distinct; and once it holds 10, a further token of that wordform leaves the reservoir
  as it is, whatever its sentence id, while the frequency counter is incremented.
\<close>

theorem reservoir_never_exceeds_10:
  assumes "process_morphology_data (take k morphology_file) = Inr st"
    and "map_of (wordforms st) W = Some r"
  shows "length (sentence_ids r) \<le> 10 \<and> distinct (sentence_ids r) \<and>
     (length (sentence_ids r) = 10 \<longrightarrow>
        (\<forall>n lem pos feats sid. \<exists>st' r'.
           process_line n (token_line W lem pos feats sid) st = Inr st' \<and>
           map_of (wordforms st') W = Some r' \<and>
           sentence_ids r' = sentence_ids r \<and> frequency r' = frequency r + 1))"
proof -
  have run: "process_lines 1 (take k morphology_file) init_state = Inr st"
    using assms(1) by (simp add: process_morphology_data_def)
  have "all_records (\<lambda>W r. reservoir_ok r) st"
    by (rule all_records_process_lines[OF run all_records_init])
      (simp_all add: reservoir_ok_new reservoir_ok_update)
  with assms(2) have ok: "reservoir_ok r" by (simp add: all_records_def)
  have "all_records keyed st"
    by (rule all_records_process_lines[OF run all_records_init])
      (simp_all add: keyed_new keyed_update)
  with assms(2) have W: "strip W \<noteq> []" by (simp add: all_records_def keyed_def)
  have step: "\<exists>st' r'. process_line n (token_line W lem pos feats sid) st = Inr st' \<and>
           map_of (wordforms st') W = Some r' \<and>
           sentence_ids r' = sentence_ids r \<and> frequency r' = frequency r + 1"
    if "length (sentence_ids r) = 10" for n lem pos feats sid
    using that W assms(2)
    by (simp add: process_line_def token_line_def py_value_def map_of_with_wordform
        update_wordform_def Let_def)
  from ok step show ?thesis by (auto simp: reservoir_ok_def)
qed

theorem reservoir_never_exceeds_10_witness:
  "process_morphology_data
     (take 11 (map (\<lambda>i. token_line (u ''a'') (u ''l'') (u ''X'') [] [i])
        [1, 2, 3, 4, 5, 6, 7, 8, 9, 10, 11, 12])) =
   Inr \<lparr>wordforms =
          [(u ''a'', \<lparr>wf_lemma = Some (u ''l''), upos = Some (u ''X''),
                     feats_counter = [([], 11)], frequency = 11,
                     sentence_ids = [Some [1], Some [2], Some [3], Some [4], Some [5], Some [6], Some [7],
                                     Some [8], Some [9], Some [10]]\<rparr>)],
        processed_tokens = 11, warnings = []\<rparr> \<and>
   (\<exists>st' r'.
      process_line 12 (token_line (u ''a'') (u ''l'') (u ''X'') [] [12])
        \<lparr>wordforms =
          [(u ''a'', \<lparr>wf_lemma = Some (u ''l''), upos = Some (u ''X''),
                     feats_counter = [([], 11)], frequency = 11,
                     sentence_ids = [Some [1], Some [2], Some [3], Some [4], Some [5], Some [6], Some [7],
                                     Some [8], Some [9], Some [10]]\<rparr>)],
          processed_tokens = 11, warnings = []\<rparr> = Inr st' \<and>
      map_of (wordforms st') (u ''a'') = Some r' \<and>
      sentence_ids r' = [Some [1], Some [2], Some [3], Some [4], Some [5], Some [6], Some [7],
                         Some [8], Some [9], Some [10]] \<and>
      frequency r' = 12)"
proof -
  let ?ls = "map (\<lambda>i. token_line (u ''a'') (u ''l'') (u ''X'') [] [i])
        [1, 2, 3, 4, 5, 6, 7, 8, 9, 10, 11, 12]"
  let ?r = "\<lparr>wf_lemma = Some (u ''l''), upos = Some (u ''X''),
                     feats_counter = [([], 11)], frequency = 11,
                     sentence_ids = [Some [1], Some [2], Some [3], Some [4], Some [5], Some [6], Some [7],
                                     Some [8], Some [9], Some [10]]\<rparr>"
  let ?st = "\<lparr>wordforms = [(u ''a'', ?r)], processed_tokens = 11, warnings = []\<rparr>"
  have run: "process_morphology_data (take 11 ?ls) = Inr ?st"
    by (simp add: run_simps)
  have look: "map_of (wordforms ?st) (u ''a'') = Some ?r"
    by simp
  from reservoir_never_exceeds_10[OF run look] run show ?thesis
    by simp
qed


section \<open>Properties of the index construction\<close>

subsection \<open>The most frequent feature string\<close>

lemma max_by_count_split:
  assumes "\<forall>p\<in>set pre0. snd p < snd best" "\<forall>p\<in>set mid0. snd p \<le> snd best"
  shows "\<exists>pre post. pre0 @ best # mid0 @ xs = pre @ max_by_count best xs # post \<and>
           (\<forall>p\<in>set pre. snd p < snd (max_by_count best xs)) \<and>
           (\<forall>p\<in>set post. snd p \<le> snd (max_by_count best xs))"
  using assms
proof (induction xs arbitrary: pre0 best mid0)
  case Nil
  then show ?case by auto
next
  case (Cons x xs)
  show ?case
  proof (cases "snd x > snd best")
    case True
    have a: "\<forall>p\<in>set (pre0 @ best # mid0). snd p < snd x"
      using Cons.prems True by fastforce
    have b: "\<forall>p\<in>set []. snd p \<le> snd x" by simp
    from Cons.IH[OF a b] True show ?thesis by simp
  next
    case False
    have b: "\<forall>p\<in>set (mid0 @ [x]). snd p \<le> snd best"
      using Cons.prems False by auto
    from Cons.IH[OF Cons.prems(1) b] False show ?thesis by simp
  qed
qed

lemma most_common_feats_first_max:
  assumes "c \<noteq> []"
  shows "\<exists>pre n post. c = pre @ (most_common_feats c, n) # post \<and>
           (\<forall>p\<in>set pre. snd p < n) \<and> (\<forall>p\<in>set post. snd p \<le> n)"
proof -
  from assms obtain x xs where c: "c = x # xs" by (cases c) auto
  have "\<exists>pre post. [] @ x # [] @ xs = pre @ max_by_count x xs # post \<and>
           (\<forall>p\<in>set pre. snd p < snd (max_by_count x xs)) \<and>
           (\<forall>p\<in>set post. snd p \<le> snd (max_by_count x xs))"
    by (rule max_by_count_split) simp_all
  then obtain pre post where "c = pre @ max_by_count x xs # post"
    "\<forall>p\<in>set pre. snd p < snd (max_by_count x xs)"
    "\<forall>p\<in>set post. snd p \<le> snd (max_by_count x xs)"
    using c by auto
  moreover have "most_common_feats c = fst (max_by_count x xs)"
    by (simp add: most_common_feats_def most_common_1_def c)
  ultimately show ?thesis
    by (metis prod.collapse)
qed

lemma r_feats_make_row:
  "r_feats (fst (make_row set_order sentences w data g)) = most_common_feats (feats_counter data)"
  "r_frequency (fst (make_row set_order sentences w data g)) = frequency data"
  "r_wordform (fst (make_row set_order sentences w data g)) = w"
  by (simp_all add: make_row_def Let_def split: prod.splits)


lemma make_row_fields:
  "\<exists>ex. fst (make_row set_order sentences w data g) =
     \<lparr>r_wordform = w, r_lemma = wf_lemma data, r_upos = upos data,
      r_feats = most_common_feats (feats_counter data),
      r_frequency = frequency data, r_sentences = ex\<rparr>"
  by (simp add: make_row_def Let_def split: prod.splits)

text \<open>
  Claim C6. The feature string written for a wordform record is one whose count in the
  record's feature counter is maximal, and among the strings with that count the one
  inserted first: every entry before it has a strictly smaller count, every entry after it
  a count that is not larger. Three tokens of the form "su" with an acute accent on the
  \<open>u\<close> (code points 115, 250)
  with the feature strings \<open>Number=Plur\<close>, \<open>Number=Plur\<close>, \<open>Number=Sing\<close> give a
  stored row with feats \<open>Number=Plur\<close> and frequency 3.
\<close>

theorem most_frequent_feats_persisted:
  "(feats_counter data \<noteq> [] \<longrightarrow>
      (\<exists>pre n post.
         feats_counter data =
           pre @ (r_feats (fst (make_row set_order sentences W data g)), n) # post \<and>
         (\<forall>p\<in>set pre. snd p < n) \<and> (\<forall>p\<in>set post. snd p \<le> n))) \<and>
   (case process_morphology_data
       [token_line [115, 250] (u ''byt'') (u ''AUX'') (u ''Number=Plur'') (u ''s1''),
        token_line [115, 250] (u ''byt'') (u ''AUX'') (u ''Number=Plur'') (u ''s2''),
        token_line [115, 250] (u ''byt'') (u ''AUX'') (u ''Number=Sing'') (u ''s3'')] of
      Inl e \<Rightarrow> False
    | Inr st \<Rightarrow>
       (case create_sqlite_database set_order None (wordforms st) sentences g db_file of
          (Inr s, Some [r], g') \<Rightarrow>
             r_wordform r = [115, 250] \<and> r_feats r = u ''Number=Plur'' \<and> r_frequency r = 3
        | _ \<Rightarrow> False))"
proof -
  let ?data = "\<lparr>wf_lemma = Some (u ''byt''), upos = Some (u ''AUX''),
       feats_counter = [(u ''Number=Plur'', 2), (u ''Number=Sing'', 1)], frequency = 3,
       sentence_ids = [Some (u ''s1''), Some (u ''s2''), Some (u ''s3'')]\<rparr>"
  obtain ex where row: "fst (make_row set_order sentences [115, 250] ?data g) =
     \<lparr>r_wordform = [115, 250], r_lemma = wf_lemma ?data, r_upos = upos ?data,
      r_feats = most_common_feats (feats_counter ?data),
      r_frequency = frequency ?data, r_sentences = ex\<rparr>"
    using make_row_fields by blast
  have mc: "most_common_feats [(u ''Number=Plur'', 2), (u ''Number=Sing'', 1)] = u ''Number=Plur''"
    by (simp add: most_common_feats_def most_common_1_def)
  have build: "case create_sqlite_database set_order None [([115, 250], ?data)] sentences g db_file of
          (Inr s, Some [r], g') \<Rightarrow>
             r_wordform r = [115, 250] \<and> r_feats r = u ''Number=Plur'' \<and> r_frequency r = 3
        | _ \<Rightarrow> False"
    using row mc
    by (cases "make_row set_order sentences [115, 250] ?data g")
      (simp add: create_sqlite_database_def Let_def init_stats_def update_stats_def)
  have "process_morphology_data
       [token_line [115, 250] (u ''byt'') (u ''AUX'') (u ''Number=Plur'') (u ''s1''),
        token_line [115, 250] (u ''byt'') (u ''AUX'') (u ''Number=Plur'') (u ''s2''),
        token_line [115, 250] (u ''byt'') (u ''AUX'') (u ''Number=Sing'') (u ''s3'')] =
     Inr \<lparr>wordforms = [([115, 250], ?data)], processed_tokens = 3, warnings = []\<rparr>"
    by (simp add: run_simps)
  with build have 2: "case process_morphology_data
       [token_line [115, 250] (u ''byt'') (u ''AUX'') (u ''Number=Plur'') (u ''s1''),
        token_line [115, 250] (u ''byt'') (u ''AUX'') (u ''Number=Plur'') (u ''s2''),
        token_line [115, 250] (u ''byt'') (u ''AUX'') (u ''Number=Sing'') (u ''s3'')] of
      Inl e \<Rightarrow> False
    | Inr st \<Rightarrow>
       (case create_sqlite_database set_order None (wordforms st) sentences g db_file of
          (Inr s, Some [r], g') \<Rightarrow>
             r_wordform r = [115, 250] \<and> r_feats r = u ''Number=Plur'' \<and> r_frequency r = 3
        | _ \<Rightarrow> False)"
    by simp
  have 1: "feats_counter data \<noteq> [] \<longrightarrow>
      (\<exists>pre n post.
         feats_counter data =
           pre @ (r_feats (fst (make_row set_order sentences W data g)), n) # post \<and>
         (\<forall>p\<in>set pre. snd p < n) \<and> (\<forall>p\<in>set post. snd p \<le> n))"
    using most_common_feats_first_max[of "feats_counter data"]
    by (simp add: r_feats_make_row)
  from 1 2 show ?thesis by blast
qed

theorem most_frequent_feats_persisted_witness:
  "feats_counter
     \<lparr>wf_lemma = Some (u ''l''), upos = Some (u ''X''),
      feats_counter = [(u ''a'', 2), (u ''b'', 3), (u ''c'', 3)], frequency = 8,
      sentence_ids = []\<rparr> \<noteq> [] \<and>
   r_feats (fst (make_row id Map.empty (u ''w'')
     \<lparr>wf_lemma = Some (u ''l''), upos = Some (u ''X''),
      feats_counter = [(u ''a'', 2), (u ''b'', 3), (u ''c'', 3)], frequency = 8,
      sentence_ids = []\<rparr> [])) = u ''b'' \<and>
   (\<exists>pre n post.
      [(u ''a'', 2::nat), (u ''b'', 3), (u ''c'', 3)] = pre @ (u ''b'', n) # post \<and>
      (\<forall>p\<in>set pre. snd p < n) \<and> (\<forall>p\<in>set post. snd p \<le> n))"
proof -
  let ?data = "\<lparr>wf_lemma = Some (u ''l''), upos = Some (u ''X''),
      feats_counter = [(u ''a'', 2), (u ''b'', 3), (u ''c'', 3)], frequency = 8,
      sentence_ids = []\<rparr>"
  have ne: "feats_counter ?data \<noteq> []" by simp
  have b: "r_feats (fst (make_row id Map.empty (u ''w'') ?data [])) = u ''b''"
    by (simp add: r_feats_make_row most_common_feats_def most_common_1_def u_def)
  from most_frequent_feats_persisted[of ?data id Map.empty "u ''w''" "[]"] ne
  have "\<exists>pre n post.
         feats_counter ?data =
           pre @ (r_feats (fst (make_row id Map.empty (u ''w'') ?data [])), n) # post \<and>
         (\<forall>p\<in>set pre. snd p < n) \<and> (\<forall>p\<in>set post. snd p \<le> n)"
    by blast
  with ne b show ?thesis by simp
qed

section \<open>Malformed lines\<close>

lemma process_line_wordforms:
  assumes "wordforms st = wordforms st'"
  shows "(case (process_line n l st, process_line n' l st') of
            (Inl e, Inl e') \<Rightarrow> e = e'
          | (Inr s, Inr s') \<Rightarrow> wordforms s = wordforms s'
          | _ \<Rightarrow> False)"
  using assms by (auto simp: process_line_def split: line.splits option.splits)

lemma process_lines_wordforms:
  "wordforms st = wordforms st' \<Longrightarrow>
     map_sum id wordforms (process_lines n ls st) = map_sum id wordforms (process_lines n' ls st')"
proof (induction ls arbitrary: n n' st st')
  case Nil
  then show ?case by simp
next
  case (Cons l ls)
  from process_line_wordforms[OF Cons.prems, of n l n'] Cons.IH show ?case
    by (auto split: sum.splits)
qed

lemma process_lines_append:
  "process_lines n (xs @ ys) st =
     (case process_lines n xs st of Inl e \<Rightarrow> Inl e
      | Inr st1 \<Rightarrow> process_lines (n + length xs) ys st1)"
  by (induction xs arbitrary: n st) (auto split: sum.splits)

lemma process_lines_warnings:
  "process_lines n ls st = Inr st' \<Longrightarrow> set (warnings st) \<subseteq> set (warnings st')"
proof (induction ls arbitrary: n st)
  case Nil
  then show ?case by simp
next
  case (Cons l ls)
  then obtain st1 where 1: "process_line n l st = Inr st1"
    and 2: "process_lines (n + 1) ls st1 = Inr st'"
    by (auto split: sum.splits)
  from 1 have "set (warnings st) \<subseteq> set (warnings st1)"
    by (auto simp: process_line_def split: line.splits option.splits if_splits)
  with Cons.IH[OF 2] show ?case by blast
qed

lemma process_line_tolerated: "tolerated l \<Longrightarrow> \<exists>st'. process_line n l st = Inr st'"
  by (auto simp: tolerated_def well_formed_def process_line_def py_value_def is_str_def
      split: line.splits json_field.splits)

lemma process_lines_tolerated:
  "\<forall>l\<in>set ls. tolerated l \<Longrightarrow> \<exists>st'. process_lines n ls st = Inr st'"
proof (induction ls arbitrary: n st)
  case Nil
  then show ?case by simp
next
  case (Cons l ls)
  then obtain st1 where "process_line n l st = Inr st1"
    using process_line_tolerated[of l n st] by auto
  with Cons show ?case by simp
qed

text \<open>
  Claim C8, as amended. A line that is not valid JSON is skipped: the aggregated wordforms
  (or the exception) are those of the stream without that line, its line number is logged,
  and in a stream whose other lines are blank, not JSON or complete token records the
  aggregation returns. Lines that are valid JSON but lack one of the five keys are not
  covered.
\<close>

theorem not_json_line_skipped:
  "map_sum id wordforms (process_morphology_data (before @ NotJson # after)) =
   map_sum id wordforms (process_morphology_data (before @ after)) \<and>
   (\<forall>st. process_morphology_data (before @ NotJson # after) = Inr st \<longrightarrow>
      length before + 1 \<in> set (warnings st)) \<and>
   ((\<forall>l\<in>set (before @ after). tolerated l) \<longrightarrow>
      (\<exists>st. process_morphology_data (before @ NotJson # after) = Inr st))"
proof -
  have 1: "map_sum id wordforms (process_morphology_data (before @ NotJson # after)) =
   map_sum id wordforms (process_morphology_data (before @ after))"
  proof (cases "process_lines 1 before init_state")
    case (Inl e)
    then show ?thesis by (simp add: process_morphology_data_def process_lines_append)
  next
    case (Inr st1)
    have "map_sum id wordforms (process_lines (1 + length before + 1) after
             (st1\<lparr>warnings := warnings st1 @ [1 + length before]\<rparr>)) =
          map_sum id wordforms (process_lines (1 + length before) after st1)"
      by (rule process_lines_wordforms) simp
    with Inr show ?thesis
      by (simp add: process_morphology_data_def process_lines_append process_line_def)
  qed
  have 2: "length before + 1 \<in> set (warnings st)"
    if "process_morphology_data (before @ NotJson # after) = Inr st" for st
  proof -
    from that obtain st1 where a: "process_lines 1 before init_state = Inr st1"
      and b: "process_lines (1 + length before + 1) after
             (st1\<lparr>warnings := warnings st1 @ [1 + length before]\<rparr>) = Inr st"
      by (auto simp: process_morphology_data_def process_lines_append process_line_def
          split: sum.splits)
    from process_lines_warnings[OF b] show ?thesis by auto
  qed
  have 3: "\<exists>st. process_morphology_data (before @ NotJson # after) = Inr st"
    if "\<forall>l\<in>set (before @ after). tolerated l"
  proof -
    from that have "\<forall>l\<in>set (before @ NotJson # after). tolerated l"
      by (auto simp: tolerated_def)
    from process_lines_tolerated[OF this] show ?thesis
      by (simp add: process_morphology_data_def)
  qed
  from 1 2 3 show ?thesis by blast
qed

theorem not_json_line_skipped_witness:
  "tolerated (token_line (u ''a'') (u ''l'') (u ''X'') [] (u ''s1'')) \<and>
   tolerated (token_line (u ''b'') (u ''l'') (u ''X'') [] (u ''s1'')) \<and>
   (\<exists>st. process_morphology_data
      ([token_line (u ''a'') (u ''l'') (u ''X'') [] (u ''s1'')] @ NotJson #
       [token_line (u ''b'') (u ''l'') (u ''X'') [] (u ''s1'')]) = Inr st \<and>
      2 \<in> set (warnings st))"
proof -
  let ?before = "[token_line (u ''a'') (u ''l'') (u ''X'') [] (u ''s1'')]"
  let ?after = "[token_line (u ''b'') (u ''l'') (u ''X'') [] (u ''s1'')]"
  have tol: "\<forall>l\<in>set (?before @ ?after). tolerated l"
    by (simp add: tolerated_def well_formed_def token_line_def is_str_def)
  from not_json_line_skipped[of ?before ?after] tol
  obtain st where st: "process_morphology_data (?before @ NotJson # ?after) = Inr st"
    by blast
  with not_json_line_skipped[of ?before ?after] have "length ?before + 1 \<in> set (warnings st)"
    by blast
  then have "2 \<in> set (warnings st)" by (simp add: numeral_2_eq_2)
  with st tol show ?thesis by auto
qed

text \<open>
  Claim C8 as stated fails: a line that is valid JSON but has no \<open>lemma\<close> key raises a
  \<open>KeyError\<close>, which the loop does not catch; the aggregation ends with that exception
  and the lines after it are not processed.
\<close>

theorem incomplete_record_aborts:
  "process_morphology_data
     [token_line (u ''a'') (u ''l'') (u ''X'') [] (u ''s1''),
      Object \<lparr>j_form = Str (u ''b''), j_lemma = Absent, j_upos = Absent, j_feats = Absent,
              j_sentence_id = Absent\<rparr>,
      token_line (u ''c'') (u ''l'') (u ''X'') [] (u ''s1'')] = Inl (KeyError ''lemma'')"
  by (simp add: run_simps)

section \<open>Building the store\<close>

lemma process_lines_ignored:
  "\<forall>l\<in>set ls. ignored l \<Longrightarrow>
     \<exists>st'. process_lines n ls st = Inr st' \<and> wordforms st' = wordforms st"
proof (induction ls arbitrary: n st)
  case Nil
  then show ?case by simp
next
  case (Cons l ls)
  then have "ignored l" by simp
  then obtain st1 where 1: "process_line n l st = Inr st1" "wordforms st1 = wordforms st"
    by (auto simp: ignored_def process_line_def token_line_def py_value_def)
  from Cons have "\<forall>l\<in>set ls. ignored l" by simp
  from Cons.IH[OF this, of "n + 1" st1] 1 show ?case by auto
qed

lemma create_empty:
  "create_sqlite_database set_order fault [] sentences g db_file =
     (Inl ZeroDivisionError, Some [], g)"
  by (simp add: create_sqlite_database_def init_stats_def)

text \<open>
  Claim C10. With an empty wordform map \<open>create_sqlite_database\<close> raises
  \<open>ZeroDivisionError\<close>, and the database file it leaves is a new one with no rows,
  whatever the file held before. When every morphology line is blank, not JSON or a token
  with a blank form, the aggregation returns the empty map, and \<open>main\<close> ends with the
  empty database on disk and with the export and the statistics file untouched.
\<close>

theorem empty_wordforms_division_by_zero:
  "create_sqlite_database set_order fault [] sentences g db_file =
     (Inl ZeroDivisionError, Some [], g) \<and>
   ((\<forall>l\<in>set morphology_lines. ignored l) \<and> load_sentences sentence_lines = Inr sentences
     \<longrightarrow> process_morphology_data morphology_lines \<noteq> Inl e \<and>
         map_sum id wordforms (process_morphology_data morphology_lines) = Inr [] \<and>
         main set_order fault (Some sentence_lines) (Some morphology_lines) g fs =
           fs\<lparr>db := Some []\<rparr>)"
proof -
  have "process_morphology_data morphology_lines \<noteq> Inl e \<and>
         map_sum id wordforms (process_morphology_data morphology_lines) = Inr [] \<and>
         main set_order fault (Some sentence_lines) (Some morphology_lines) g fs =
           fs\<lparr>db := Some []\<rparr>"
    if a: "\<forall>l\<in>set morphology_lines. ignored l"
      and b: "load_sentences sentence_lines = Inr sentences"
  proof -
    from process_lines_ignored[OF a, of 1 init_state]
    obtain st where st: "process_morphology_data morphology_lines = Inr st" "wordforms st = []"
      by (auto simp: process_morphology_data_def init_state_def)
    then show ?thesis
      by (simp add: main_def b create_empty)
  qed
  with create_empty show ?thesis by blast
qed

lemma executemany_fault:
  "i \<le> N \<Longrightarrow> N < i + length rows \<Longrightarrow> executemany (Some N) i pending rows = Inl DbError"
proof (induction rows arbitrary: i pending)
  case Nil
  then show ?case by simp
next
  case (Cons r rows)
  then show ?case by (cases "N = i") auto
qed

lemma executemany_ok:
  "\<forall>r\<in>set rows. r_lemma r \<noteq> None \<and> r_upos r \<noteq> None \<Longrightarrow>
     executemany None i pending rows = Inr (pending @ rows)"
  by (induction rows arbitrary: i pending) auto

lemma length_prepare:
  "prepare set_order sentences items acc s g = (insert_data, s', g') \<Longrightarrow>
     length insert_data = length acc + length items"
proof (induction items arbitrary: acc s g)
  case Nil
  then show ?case by simp
next
  case (Cons it items)
  then show ?case by (cases it) (auto split: prod.splits)
qed

theorem empty_wordforms_division_by_zero_witness:
  "ignored Blank \<and> ignored NotJson \<and>
   ignored (token_line (u ''  '') (u ''l'') (u ''X'') [] (u ''s1'')) \<and>
   load_sentences [SObject (Some (u ''s1'')) (Some (u ''A sentence.''))] =
     Inr [u ''s1'' \<mapsto> u ''A sentence.''] \<and>
   main id None (Some [SObject (Some (u ''s1'')) (Some (u ''A sentence.''))])
     (Some [Blank, NotJson, token_line (u ''  '') (u ''l'') (u ''X'') [] (u ''s1'')]) []
     \<lparr>db = None, export = None, stats_file = None\<rparr> =
   \<lparr>db = Some [], export = None, stats_file = None\<rparr>"
proof -
  let ?ml = "[Blank, NotJson, token_line (u ''  '') (u ''l'') (u ''X'') [] (u ''s1'')]"
  let ?sl = "[SObject (Some (u ''s1'')) (Some (u ''A sentence.''))]"
  have "strip (u ''  '') = []"
    by (simp add: strip_def isspace_def u_def)
  then have "ignored (token_line (u ''  '') (u ''l'') (u ''X'') [] (u ''s1''))"
    unfolding ignored_def by blast
  then have ign: "\<forall>l\<in>set ?ml. ignored l"
    by (simp add: ignored_def)
  have load: "load_sentences ?sl = Inr [u ''s1'' \<mapsto> u ''A sentence.'']"
    by (simp add: load_sentences_def)
  from empty_wordforms_division_by_zero[of id None "[u ''s1'' \<mapsto> u ''A sentence.'']" "[]"
      None ?ml ?sl _ "\<lparr>db = None, export = None, stats_file = None\<rparr>"] ign load
  have "main id None (Some ?sl) (Some ?ml) [] \<lparr>db = None, export = None, stats_file = None\<rparr> =
        \<lparr>db = None, export = None, stats_file = None\<rparr>\<lparr>db := Some []\<rparr>"
    by blast
  with ign load show ?thesis by simp
qed

text \<open>
  Claim C1, as amended. The rows of one build are inserted in a single transaction: when
  the insertion of row \<open>N\<close> of the build fails, none of the rows inserted before it is
  kept, and the database file is left with an empty table. The previous store is not
  preserved: the outcome of a build, and the file it leaves, do not depend on what the
  file held before.
\<close>

theorem failed_insert_leaves_empty_store:
  "(N < length wordforms_data \<longrightarrow>
      (\<exists>g'. create_sqlite_database set_order (Some N) wordforms_data sentences g old_store =
             (Inl DbError, Some [], g'))) \<and>
   create_sqlite_database set_order fault wordforms_data sentences g old_store =
   create_sqlite_database set_order fault wordforms_data sentences g None"
proof -
  have "\<exists>g'. create_sqlite_database set_order (Some N) wordforms_data sentences g old_store =
             (Inl DbError, Some [], g')"
    if N: "N < length wordforms_data"
  proof -
    obtain insert_data s g' where p:
      "prepare set_order sentences wordforms_data [] init_stats g = (insert_data, s, g')"
      by (metis prod_cases3)
    from length_prepare[OF p] N have "N < 0 + length insert_data" by simp
    then have "executemany (Some N) 0 [] insert_data = Inl DbError"
      by (intro executemany_fault) simp_all
    with p show ?thesis
      by (simp add: create_sqlite_database_def)
  qed
  moreover have "create_sqlite_database set_order fault wordforms_data sentences g old_store =
      create_sqlite_database set_order fault wordforms_data sentences g None"
    by (simp add: create_sqlite_database_def)
  ultimately show ?thesis by blast
qed

theorem failed_insert_leaves_empty_store_witness:
  "(1::nat) < length
     [(u ''a'', \<lparr>wf_lemma = Some (u ''l''), upos = Some (u ''X''), feats_counter = [([], 1)],
                 frequency = 1, sentence_ids = [Some (u ''s1'')]\<rparr>),
      (u ''b'', \<lparr>wf_lemma = Some (u ''l''), upos = Some (u ''X''), feats_counter = [([], 1)],
                 frequency = 1, sentence_ids = [Some (u ''s1'')]\<rparr>)] \<and>
   (\<exists>g'. create_sqlite_database id (Some 1)
     [(u ''a'', \<lparr>wf_lemma = Some (u ''l''), upos = Some (u ''X''), feats_counter = [([], 1)],
                 frequency = 1, sentence_ids = [Some (u ''s1'')]\<rparr>),
      (u ''b'', \<lparr>wf_lemma = Some (u ''l''), upos = Some (u ''X''), feats_counter = [([], 1)],
                 frequency = 1, sentence_ids = [Some (u ''s1'')]\<rparr>)]
     Map.empty [] None = (Inl DbError, Some [], g'))"
  using failed_insert_leaves_empty_store[of 1
     "[(u ''a'', \<lparr>wf_lemma = Some (u ''l''), upos = Some (u ''X''), feats_counter = [([], 1)],
                 frequency = 1, sentence_ids = [Some (u ''s1'')]\<rparr>),
      (u ''b'', \<lparr>wf_lemma = Some (u ''l''), upos = Some (u ''X''), feats_counter = [([], 1)],
                 frequency = 1, sentence_ids = [Some (u ''s1'')]\<rparr>)]" id Map.empty "[]" None]
  by simp

text \<open>
  Claim C1 as stated fails: a build whose first insertion fails, started on a store that
  holds one row, leaves a store with no rows, not the store it found.
\<close>

theorem failed_rebuild_destroys_previous_store:
  "fst (snd (create_sqlite_database id (Some 0)
     [(u ''a'', \<lparr>wf_lemma = Some (u ''l''), upos = Some (u ''X''), feats_counter = [([], 1)],
                 frequency = 1, sentence_ids = [Some (u ''s1'')]\<rparr>)]
     Map.empty []
     (Some [\<lparr>r_wordform = u ''old'', r_lemma = Some (u ''l''), r_upos = Some (u ''X''),
              r_feats = [], r_frequency = 1, r_sentences = [u ''An old example.'']\<rparr>])))
   = Some [] \<and>
   fst (snd (create_sqlite_database id (Some 0)
     [(u ''a'', \<lparr>wf_lemma = Some (u ''l''), upos = Some (u ''X''), feats_counter = [([], 1)],
                 frequency = 1, sentence_ids = [Some (u ''s1'')]\<rparr>)]
     Map.empty []
     (Some [\<lparr>r_wordform = u ''old'', r_lemma = Some (u ''l''), r_upos = Some (u ''X''),
              r_feats = [], r_frequency = 1, r_sentences = [u ''An old example.'']\<rparr>])))
   \<noteq> Some [\<lparr>r_wordform = u ''old'', r_lemma = Some (u ''l''), r_upos = Some (u ''X''),
              r_feats = [], r_frequency = 1, r_sentences = [u ''An old example.'']\<rparr>]"
  by (simp add: create_sqlite_database_def make_row_def select_example_sentences_def
      init_stats_def update_stats_def Let_def placeholder_def most_common_feats_def
      most_common_1_def lookup_def)


section \<open>The stored examples\<close>

lemma lookup_ran: "lookup sentences sid = Some t \<Longrightarrow> t \<in> ran sentences"
  by (auto simp: lookup_def ran_def split: option.splits)

lemma collect_good_subset: "set (collect_good sentences ids) \<subseteq> texts sentences"
  by (induction ids) (auto simp: texts_def dest: lookup_ran split: option.splits)

lemma collect_good_nonempty: "e \<in> set (collect_good sentences ids) \<Longrightarrow> e \<noteq> []"
  by (induction ids) (auto simp: good_sentence_def split: option.splits if_splits)

lemma first_available_subset: "set (first_available sentences ids) \<subseteq> texts sentences"
  by (induction ids) (auto simp: texts_def dest: lookup_ran split: option.splits)

lemma randbelow_less: "0 < n \<Longrightarrow> fst (randbelow n g) < n"
  by (simp add: randbelow_def split: list.splits)

lemma shuffle_from_set: "i < length x \<Longrightarrow> set (fst (shuffle_from i x g)) = set x"
proof (induction i arbitrary: x g)
  case 0
  then show ?case by simp
next
  case (Suc i)
  obtain j g' where r: "randbelow (Suc i + 1) g = (j, g')" by (cases "randbelow (Suc i + 1) g")
  with randbelow_less[of "Suc i + 1" g] have j: "j < length x" using Suc.prems by simp
  have "set (fst (shuffle_from i (x[Suc i := x ! j, j := x ! Suc i]) g')) =
        set (x[Suc i := x ! j, j := x ! Suc i])"
    by (rule Suc.IH) (use Suc.prems in simp)
  also have "\<dots> = set x" using Suc.prems j by simp
  finally show ?case using r by simp
qed

lemma shuffle_set: "set (fst (shuffle x g)) = set x"
  by (cases "x = []") (simp_all add: shuffle_def shuffle_from_set)

lemma fill_subset: "set (fill m selected remaining) \<subseteq> set selected \<union> set remaining"
proof (induction m selected remaining rule: fill.induct)
  case (1 m selected remaining)
  show ?case
  proof (cases "length selected < m \<and> remaining \<noteq> []")
    case True
    then have "set (fill m selected remaining) =
        set (fill m (selected @ [last remaining]) (butlast remaining))"
      by (subst fill.simps) simp
    also have "\<dots> \<subseteq> set (selected @ [last remaining]) \<union> set (butlast remaining)"
      using 1 True by blast
    also have "\<dots> \<subseteq> set selected \<union> set remaining"
      using True by (auto dest: in_set_butlastD)
    finally show ?thesis .
  next
    case False
    then show ?thesis by (subst fill.simps) auto
  qed
qed

lemma select_length: "length (fst (select_example_sentences ids sentences m g)) \<le> m"
  by (simp add: select_example_sentences_def Let_def split: prod.splits)

lemma select_subset:
  "set (fst (select_example_sentences ids sentences m g)) \<subseteq> set (available sentences ids)"
proof (cases "length (available sentences ids) \<le> m")
  case True
  then show ?thesis by (simp add: select_example_sentences_def available_def Let_def)
next
  case False
  let ?a = "available sentences ids"
  let ?sel = "[?a ! 0] @ (if length ?a > 1 then [last ?a] else []) @
              (if length ?a > 2 then [?a ! (length ?a div 2)] else [])"
  let ?rem = "filter (\<lambda>s. s \<notin> set ?sel) ?a"
  from False have ne: "?a \<noteq> []" by auto
  then have sel: "set ?sel \<subseteq> set ?a" by (auto simp: nth_mem)
  have *: "fst (select_example_sentences ids sentences m g) =
        take m (fill m ?sel (fst (shuffle ?rem g)))"
    using False
    by (simp add: select_example_sentences_def available_def Let_def split: prod.splits)
  have "set (fill m ?sel (fst (shuffle ?rem g))) \<subseteq> set ?sel \<union> set ?rem"
    using fill_subset[of m ?sel "fst (shuffle ?rem g)"] by (simp only: shuffle_set)
  moreover have "set ?rem \<subseteq> set ?a" by auto
  ultimately have "set (fill m ?sel (fst (shuffle ?rem g))) \<subseteq> set ?a"
    using sel by blast
  with * show ?thesis
    using set_take_subset[of m "fill m ?sel (fst (shuffle ?rem g))"] by auto
qed


lemma available_subset: "set (available sentences ids) \<subseteq> texts sentences"
  using collect_good_subset first_available_subset by (simp add: available_def)

lemma available_nonempty:
  assumes "\<forall>sid t. sentences sid = Some t \<longrightarrow> strip t \<noteq> []"
    and "e \<in> set (available sentences ids)"
  shows "e \<noteq> []"
proof -
  from assms(2) available_subset have "e \<in> texts sentences" by blast
  then obtain t sid where "e = strip t" "sentences sid = Some t"
    by (auto simp: texts_def ran_def)
  with assms(1) show ?thesis by simp
qed

lemma make_row_sentences:
  "r_sentences (fst (make_row set_order sentences w data g)) =
     (if fst (select_example_sentences (set_order (sentence_ids data)) sentences 5 g) = []
      then [placeholder w]
      else fst (select_example_sentences (set_order (sentence_ids data)) sentences 5 g))"
  by (simp add: make_row_def Let_def split: prod.splits)

lemma make_row_wordform: "r_wordform (fst (make_row set_order sentences w data g)) = w"
  by (simp add: make_row_def Let_def split: prod.splits)

lemma make_row_examples:
  "1 \<le> length (r_sentences (fst (make_row set_order sentences w data g))) \<and>
   length (r_sentences (fst (make_row set_order sentences w data g))) \<le> 5 \<and>
   ((\<forall>sid t. sentences sid = Some t \<longrightarrow> strip t \<noteq> []) \<longrightarrow>
      (\<forall>e\<in>set (r_sentences (fst (make_row set_order sentences w data g))). 0 < length e))"
proof -
  let ?ex = "fst (select_example_sentences (set_order (sentence_ids data)) sentences 5 g)"
  have len: "length ?ex \<le> 5" by (rule select_length)
  have sub: "set ?ex \<subseteq> set (available sentences (set_order (sentence_ids data)))"
    by (rule select_subset)
  have ph: "placeholder w \<noteq> []" by (simp add: placeholder_def)
  show ?thesis
  proof (cases "?ex = []")
    case True
    then show ?thesis using ph by (simp add: make_row_sentences)
  next
    case False
    then have "1 \<le> length ?ex" by (cases ?ex) auto
    moreover have "\<forall>e\<in>set ?ex. 0 < length e"
      if "\<forall>sid t. sentences sid = Some t \<longrightarrow> strip t \<noteq> []"
      using available_nonempty[OF that] sub by auto
    ultimately show ?thesis using False len by (simp add: make_row_sentences)
  qed
qed

lemma prepare_rows:
  "prepare set_order sentences items acc s g = (insert_data, s', g') \<Longrightarrow>
   r \<in> set insert_data \<Longrightarrow>
   r \<in> set acc \<or>
   (\<exists>w data g0. (w, data) \<in> set items \<and> r = fst (make_row set_order sentences w data g0))"
proof (induction items arbitrary: acc s g)
  case Nil
  then show ?case by simp
next
  case (Cons it items)
  obtain w data where it: "it = (w, data)" by (cases it)
  obtain r0 g1 where mr: "make_row set_order sentences w data g = (r0, g1)"
    by (cases "make_row set_order sentences w data g")
  from Cons.prems(1) it mr have
    "prepare set_order sentences items (acc @ [r0]) (update_stats r0 s) g1 = (insert_data, s', g')"
    by simp
  from Cons.IH[OF this Cons.prems(2)] show ?case
  proof
    assume "r \<in> set (acc @ [r0])"
    then consider "r \<in> set acc" | "r = r0" by auto
    then show ?thesis
    proof cases
      case 1
      then show ?thesis by simp
    next
      case 2
      with mr have "r = fst (make_row set_order sentences w data g)" by simp
      moreover have "(w, data) \<in> set (it # items)" using it by simp
      ultimately show ?thesis by blast
    qed
  next
    assume "\<exists>w data g0. (w, data) \<in> set items \<and> r = fst (make_row set_order sentences w data g0)"
    then show ?thesis by auto
  qed
qed

lemma executemany_result:
  "executemany fault i pending rows = Inr res \<Longrightarrow> res = pending @ rows"
proof (induction rows arbitrary: i pending)
  case Nil
  then show ?case by simp
next
  case (Cons a rows)
  then have "executemany fault (i + 1) (pending @ [a]) rows = Inr res"
    by (simp split: if_splits)
  from Cons.IH[OF this] show ?case by simp
qed

lemma create_sqlite_database_eq:
  "create_sqlite_database set_order fault wordforms_data sentences g db_file =
     (case prepare set_order sentences wordforms_data [] init_stats g of
        (insert_data, s, g') \<Rightarrow>
          (case executemany fault 0 [] insert_data of
             Inl e \<Rightarrow> (Inl e, Some [], g')
           | Inr rows \<Rightarrow>
               if total_wordforms s = 0 then (Inl ZeroDivisionError, Some rows, g')
               else (Inr (stats.extend s
                       \<lparr>avg_examples_per_wordform =
                          Fract (int (total_examples s)) (int (total_wordforms s)),
                        unique_feats_count = length (feats_coverage s)\<rparr>),
                     Some rows, g')))"
  by (cases db_file)
    (simp_all add: create_sqlite_database_def Let_def split: prod.splits sum.splits)

lemma stored_rows:
  assumes "create_sqlite_database set_order fault wordforms_data sentences g db_file =
      (res, Some rows, g')"
    and "r \<in> set rows"
  shows "\<exists>w data g0. (w, data) \<in> set wordforms_data \<and>
           r = fst (make_row set_order sentences w data g0)"
proof -
  obtain insert_data s g1 where p:
    "prepare set_order sentences wordforms_data [] init_stats g = (insert_data, s, g1)"
    by (metis prod_cases3)
  show ?thesis
  proof (cases "executemany fault 0 [] insert_data")
    case (Inl e)
    with assms p show ?thesis by (simp add: create_sqlite_database_eq)
  next
    case (Inr committed)
    with executemany_result[OF Inr] assms p have "r \<in> set insert_data"
      by (auto simp: create_sqlite_database_eq split: if_splits)
    from prepare_rows[OF p this] show ?thesis by simp
  qed
qed

text \<open>
  Claim C2, as amended. Every row of the store that \<open>create_sqlite_database\<close> leaves
  holds between 1 and 5 example sentences; the list is the selector's result for that
  wordform, or the one-element list of the placeholder when the selector returns the empty
  list; and when no sentence of the sentence store is blank (empty after \<open>strip\<close>), every
  stored example is non-empty.
\<close>

theorem persisted_examples_between_1_and_5:
  assumes "create_sqlite_database set_order fault wordforms_data sentences g db_file =
      (res, Some rows, g')"
    and "r \<in> set rows"
  shows "1 \<le> length (r_sentences r) \<and> length (r_sentences r) \<le> 5 \<and>
     ((\<forall>sid t. sentences sid = Some t \<longrightarrow> strip t \<noteq> []) \<longrightarrow>
        (\<forall>e\<in>set (r_sentences r). 0 < length e)) \<and>
     (\<exists>data g0. (r_wordform r, data) \<in> set wordforms_data \<and>
        r_sentences r =
          (if fst (select_example_sentences (set_order (sentence_ids data)) sentences 5 g0) = []
           then [placeholder (r_wordform r)]
           else fst (select_example_sentences (set_order (sentence_ids data)) sentences 5 g0)))"
proof -
  from stored_rows[OF assms] obtain w data g0 where
    w: "(w, data) \<in> set wordforms_data" and r: "r = fst (make_row set_order sentences w data g0)"
    by blast
  have "\<exists>data g0. (r_wordform r, data) \<in> set wordforms_data \<and>
        r_sentences r =
          (if fst (select_example_sentences (set_order (sentence_ids data)) sentences 5 g0) = []
           then [placeholder (r_wordform r)]
           else fst (select_example_sentences (set_order (sentence_ids data)) sentences 5 g0))"
    using w unfolding r make_row_wordform make_row_sentences by blast
  with make_row_examples[of set_order sentences w data g0] r show ?thesis by simp
qed

text \<open>
  Claim C2 as stated fails: for a wordform whose only sentence has a blank text the
  fallback of the selector returns the stripped text, the empty string; the list is not
  empty, so no placeholder is substituted and the empty string is stored.
\<close>

theorem blank_sentence_gives_empty_example:
  "snd (create_sqlite_database id None
     [(u ''a'', \<lparr>wf_lemma = Some (u ''l''), upos = Some (u ''X''), feats_counter = [([], 1)],
                 frequency = 1, sentence_ids = [Some (u ''s1'')]\<rparr>)]
     [u ''s1'' \<mapsto> u ''  ''] [] None) =
   (Some [\<lparr>r_wordform = u ''a'', r_lemma = Some (u ''l''), r_upos = Some (u ''X''),
           r_feats = [], r_frequency = 1, r_sentences = [[]]\<rparr>], [])"
  by (simp add: create_sqlite_database_def make_row_def select_example_sentences_def
      init_stats_def update_stats_def Let_def most_common_feats_def most_common_1_def
      strip_def isspace_def u_def lookup_def)


theorem persisted_examples_between_1_and_5_witness:
  "snd (create_sqlite_database id None
     [(u ''a'', \<lparr>wf_lemma = Some (u ''l''), upos = Some (u ''X''), feats_counter = [([], 1)],
                 frequency = 1, sentence_ids = [Some (u ''s1'')]\<rparr>)]
     [u ''s1'' \<mapsto> u '' A sentence long enough. ''] [] None) =
   (Some [\<lparr>r_wordform = u ''a'', r_lemma = Some (u ''l''), r_upos = Some (u ''X''),
           r_feats = [], r_frequency = 1,
           r_sentences = [u ''A sentence long enough.'']\<rparr>], []) \<and>
   strip (u '' A sentence long enough. '') \<noteq> [] \<and>
   1 \<le> length [u ''A sentence long enough.''] \<and>
   length [u ''A sentence long enough.''] \<le> 5 \<and>
   0 < length (u ''A sentence long enough.'')"
proof -
  let ?wfs = "[(u ''a'', \<lparr>wf_lemma = Some (u ''l''), upos = Some (u ''X''),
                 feats_counter = [([], 1)], frequency = 1, sentence_ids = [Some (u ''s1'')]\<rparr>)]"
  let ?sents = "[u ''s1'' \<mapsto> u '' A sentence long enough. '']"
  let ?row = "\<lparr>r_wordform = u ''a'', r_lemma = Some (u ''l''), r_upos = Some (u ''X''),
           r_feats = [], r_frequency = 1,
           r_sentences = [u ''A sentence long enough.'']\<rparr>"
  have run: "snd (create_sqlite_database id None ?wfs ?sents [] None) = (Some [?row], [])"
    by (simp add: create_sqlite_database_def make_row_def select_example_sentences_def
      init_stats_def update_stats_def Let_def most_common_feats_def most_common_1_def
      strip_def isspace_def u_def good_sentence_def startswith_def lookup_def)
  then have eq: "create_sqlite_database id None ?wfs ?sents [] None =
      (fst (create_sqlite_database id None ?wfs ?sents [] None), Some [?row], [])"
    by (simp add: prod_eq_iff)
  have mem: "?row \<in> set [?row]" by simp
  have st: "strip (u '' A sentence long enough. '') \<noteq> []"
    by (simp add: strip_def isspace_def u_def)
  then have nb: "\<forall>sid t. ?sents sid = Some t \<longrightarrow> strip t \<noteq> []"
    by (simp split: if_splits)
  from persisted_examples_between_1_and_5[OF eq mem] nb
  have "1 \<le> length (r_sentences ?row) \<and> length (r_sentences ?row) \<le> 5 \<and>
        (\<forall>e\<in>set (r_sentences ?row). 0 < length e)"
    by blast
  with run st show ?thesis by simp
qed


section \<open>The candidate key filter\<close>

lemma listed_in_range: "c \<in> set listed_letters \<Longrightarrow> 192 \<le> c \<and> c \<le> 382"
  unfolding listed_letters_def by auto

lemma in_class_range:
  "in_class c \<longleftrightarrow> (65 \<le> c \<and> c \<le> 90) \<or> (97 \<le> c \<and> c \<le> 122) \<or> (192 \<le> c \<and> c \<le> 382)"
  using listed_in_range[of c] unfolding in_class_def by blast

lemma in_class_not_space: "in_class c \<Longrightarrow> \<not> isspace c"
  unfolding in_class_range isspace_def by arith


lemma lower_char_unchanged: "\<not> changes c \<Longrightarrow> lower_char c = [c]"
  by (simp add: changes_def lower_char_def)

lemma lower_char_result: "x \<in> set (lower_char c) \<Longrightarrow> \<not> changes x"
proof -
  assume x: "x \<in> set (lower_char c)"
  consider "65 \<le> c \<and> c \<le> 90" "x = c + 32"
    | "192 \<le> c \<and> c \<le> 222" "x = c + 32"
    | "x = 105" | "x = 775" | "x = 255"
    | "256 \<le> c \<and> c \<le> 311 \<or> 330 \<le> c \<and> c \<le> 375" "even c" "x = c + 1"
    | "313 \<le> c \<and> c \<le> 328 \<or> 377 \<le> c \<and> c \<le> 382" "odd c" "x = c + 1"
    | "\<not> changes c" "x = c"
    using x by (auto simp: lower_char_def changes_def split: if_splits)
  then show ?thesis
  proof cases
    case 1 then show ?thesis by (simp add: changes_def)
  next
    case 2 then show ?thesis by (simp add: changes_def)
  next
    case 3 then show ?thesis by (simp add: changes_def)
  next
    case 4 then show ?thesis by (simp add: changes_def)
  next
    case 5 then show ?thesis by (simp add: changes_def)
  next
    case 6 then show ?thesis unfolding changes_def by auto
  next
    case 7 then show ?thesis unfolding changes_def by auto
  next
    case 8 then show ?thesis by simp
  qed
qed

lemma lower_char_fixed: "x \<in> set (lower_char c) \<Longrightarrow> lower_char x = [x]"
  by (rule lower_char_unchanged) (rule lower_char_result)


lemma lower_idem: "lower (lower s) = lower s"
proof -
  have "concat (map lower_char xs) = xs" if "\<forall>x\<in>set xs. lower_char x = [x]" for xs
    using that by (induction xs) auto
  moreover have "\<forall>x\<in>set (lower s). lower_char x = [x]"
    by (auto simp: lower_def dest: lower_char_fixed)
  ultimately show ?thesis unfolding lower_def by blast
qed

lemma page_key_Some:
  "page_key d title text = Some k \<Longrightarrow>
     58 \<notin> set (strip title) \<and> 32 \<notin> set (strip title) \<and>
     (\<forall>c\<in>set (strip title). \<not> isdigit d c) \<and> fullmatch_key (strip title) \<and>
     k = lower (strip title)"
  unfolding page_key_def Let_def by (simp split: if_splits)

text \<open>
  What the filter of lines 89--99 does for every title. The key is the title without its
  leading and trailing whitespace; it is accepted only if it contains no colon, no
  whitespace and no digit, consists of characters of the class of line 96 only and has
  between 2 and 30 code points, and it is emitted in lower case (lower-casing it again
  changes nothing). The titles "dom2" and "New York" are rejected, and the title "macka"
  with a caron on the \<open>c\<close> (109, 97, 269, 107, 97) is accepted whenever the page has a
  text.
\<close>

lemma page_key_filter:
  "(page_key other_digit title text = Some k \<longrightarrow>
      58 \<notin> set (strip title) \<and>
      (\<forall>c\<in>set (strip title). \<not> isspace c \<and> \<not> isdigit other_digit c \<and> in_class c) \<and>
      2 \<le> length (strip title) \<and> length (strip title) \<le> 30 \<and>
      k = lower (strip title) \<and> lower k = k) \<and>
   page_key other_digit (u ''dom2'') text = None \<and>
   page_key other_digit (u ''New York'') text = None \<and>
   (text \<noteq> [] \<longrightarrow>
      page_key other_digit [109, 97, 269, 107, 97] text = Some [109, 97, 269, 107, 97])"
proof -
  have 1: "58 \<notin> set (strip title) \<and>
      (\<forall>c\<in>set (strip title). \<not> isspace c \<and> \<not> isdigit other_digit c \<and> in_class c) \<and>
      2 \<le> length (strip title) \<and> length (strip title) \<le> 30 \<and>
      k = lower (strip title) \<and> lower k = k"
    if "page_key other_digit title text = Some k"
    using page_key_Some[OF that] in_class_not_space
    by (auto simp: fullmatch_key_def lower_idem)
  have 2: "page_key other_digit (u ''dom2'') text = None"
    by (simp add: page_key_def u_def strip_def isspace_def isdigit_def Let_def)
  have 3: "page_key other_digit (u ''New York'') text = None"
    by (simp add: page_key_def u_def strip_def isspace_def Let_def)
  have 4: "page_key other_digit [109, 97, 269, 107, 97] text = Some [109, 97, 269, 107, 97]"
    if "text \<noteq> []"
    using that
    by (simp add: page_key_def strip_def isspace_def isdigit_def Let_def fullmatch_key_def
        in_class_def lower_def lower_char_def)
  from 1 2 3 4 show ?thesis by blast
qed

lemma page_key_filter_example:
  "page_key (\<lambda>c. False) (u '' MAMA '') (u ''text'') = Some (u ''mama'') \<and>
   strip (u '' MAMA '') = u ''MAMA'' \<and> lower (u ''MAMA'') = u ''mama''"
  by (simp add: page_key_def strip_def isspace_def isdigit_def Let_def fullmatch_key_def
      in_class_def lower_def lower_char_def u_def)

text \<open>
  Claim C7 fails on the code. The class of line 96 is meant to hold the Latin letters with
  their diacritics (the comment at line 95), but its range from U+00C0 to U+017E also
  contains two characters that are not letters: U+00D7, the multiplication sign, and
  U+00F7, the division sign. A title made of \<open>a\<close>, the multiplication sign and \<open>b\<close>
  (97, 215, 98) contains no colon, no whitespace and no digit, matches the pattern, and is
  emitted as a key, although it does not consist of letters only; so is the title with
  the division sign (97, 247, 98). For the page text used here (six words, no sentence
  end, no markup) the expressions of lines 104--127 find one example line, the text
  itself, and the handler stores it under that key.
\<close>

theorem multiplication_sign_accepted_as_key:
  "page_key other_digit [97, 215, 98] (u ''This page has five words here'') =
     Some [97, 215, 98] \<and>
   page_key other_digit [97, 247, 98] (u ''This page has five words here'') =
     Some [97, 247, 98] \<and>
   examples (process_page other_digit (\<lambda>t. [t]) [97, 215, 98]
       (u ''This page has five words here'')
       \<lparr>examples = [], total_pages = 1, pages_with_examples = 0\<rparr>) =
     [([97, 215, 98], [u ''This page has five words here''])]"
  by (simp add: process_page_def page_key_def strip_def isspace_def isdigit_def Let_def
      fullmatch_key_def in_class_def lower_def lower_char_def u_def fromkeys_def)

theorem multiplication_sign_accepted_as_key_witness:
  "page_key (\<lambda>c. False) [97, 215, 98] (u ''This page has five words here'') =
     Some [97, 215, 98]"
  using multiplication_sign_accepted_as_key[of "\<lambda>c. False"] by simp


section \<open>Properties of the merge\<close>

subsection \<open>The merge on values\<close>

lemma fromkeys_into_prefix: "\<exists>ys. fromkeys_into seen xs = seen @ ys"
proof (induction xs arbitrary: seen)
  case Nil
  then show ?case by simp
next
  case (Cons x xs)
  show ?case
  proof (cases "x \<in> set seen")
    case True
    with Cons[of seen] show ?thesis by simp
  next
    case False
    from Cons[of "seen @ [x]"] obtain ys where "fromkeys_into (seen @ [x]) xs = (seen @ [x]) @ ys"
      by blast
    with False show ?thesis by simp
  qed
qed

lemma take1_fromkeys: "take 1 (fromkeys xs) = take 1 xs"
proof (cases xs)
  case Nil
  then show ?thesis by (simp add: fromkeys_def)
next
  case (Cons x xs')
  from fromkeys_into_prefix[of "[x]" xs'] obtain ys where "fromkeys_into [x] xs' = [x] @ ys"
    by blast
  with Cons show ?thesis by (simp add: fromkeys_def)
qed

lemma take_Suc0_fromkeys: "take (Suc 0) (fromkeys xs) = take (Suc 0) xs"
  using take1_fromkeys[of xs] by simp

lemma map_of_extend_entry:
  "map_of (extend_entry k ls M) k' =
     (if k' = k then Some ((case map_of M k of None \<Rightarrow> [] | Some v \<Rightarrow> v) @ ls)
      else map_of M k')"
  by (induction k ls M rule: extend_entry.induct) auto

lemma extend_entry_new: "k \<notin> set (map fst M) \<Longrightarrow> extend_entry k ls M = M @ [(k, ls)]"
  by (induction k ls M rule: extend_entry.induct) auto

lemma merge_values_append:
  "merge_values (xs @ ys) M = merge_values ys (merge_values xs M)"
  by (induction xs arbitrary: M) auto

lemma map_of_merge_values:
  "map_of M word = Some v \<Longrightarrow>
     map_of (merge_values items M) word = Some (v @ examples_for word items)"
proof (induction items arbitrary: M v)
  case Nil
  then show ?case by (simp add: examples_for_def)
next
  case (Cons it items)
  obtain w ls where it: "it = (w, ls)" by (cases it)
  show ?case
  proof (cases "w = word")
    case True
    with Cons.prems have "map_of (extend_entry w ls M) word = Some (v @ ls)"
      by (simp add: map_of_extend_entry)
    from Cons.IH[OF this] it True show ?thesis by (simp add: examples_for_def)
  next
    case False
    with Cons.prems have "map_of (extend_entry w ls M) word = Some v"
      by (simp add: map_of_extend_entry)
    from Cons.IH[OF this] it False show ?thesis by (simp add: examples_for_def)
  qed
qed

lemma clean_extend_absorbed:
  "map_of M word = Some v \<Longrightarrow> (ls \<noteq> [] \<longrightarrow> v \<noteq> []) \<Longrightarrow>
     clean (extend_entry word ls M) = clean M"
proof (induction word ls M rule: extend_entry.induct)
  case (1 k ls)
  then show ?case by simp
next
  case (2 k ls k' v' d)
  show ?case
  proof (cases "k = k'")
    case True
    with 2 have v: "v' = v" by simp
    have "take (Suc 0) (v @ ls) = take (Suc 0) v" using 2(3) by (cases v) auto
    with True v show ?thesis by (simp add: clean_def take_Suc0_fromkeys)
  next
    case False
    with 2 show ?thesis by (simp add: clean_def)
  qed
qed

lemma absorbs_extend:
  assumes "absorbs M items"
  shows "absorbs (extend_entry w ls M) items"
  unfolding absorbs_def
proof (intro ballI, clarify)
  fix word ls'
  assume "(word, ls') \<in> set items"
  with assms obtain v where v: "map_of M word = Some v" "ls' \<noteq> [] \<longrightarrow> v \<noteq> []"
    unfolding absorbs_def by blast
  show "\<exists>v. map_of (extend_entry w ls M) word = Some v \<and> (ls' \<noteq> [] \<longrightarrow> v \<noteq> [])"
  proof (cases "word = w")
    case True
    with v show ?thesis by (simp add: map_of_extend_entry)
  next
    case False
    with v show ?thesis by (simp add: map_of_extend_entry)
  qed
qed

lemma absorbs_merge_values: "absorbs M items \<Longrightarrow> absorbs (merge_values its M) items"
proof (induction its arbitrary: M)
  case Nil
  then show ?case by simp
next
  case (Cons it its)
  obtain w ls where it: "it = (w, ls)" by (cases it)
  from Cons.prems have "absorbs (extend_entry w ls M) items" by (rule absorbs_extend)
  from Cons.IH[OF this] it show ?case by simp
qed

lemma clean_merge_absorbed: "absorbs M items \<Longrightarrow> clean (merge_values items M) = clean M"
proof (induction items arbitrary: M)
  case Nil
  then show ?case by simp
next
  case (Cons it items)
  obtain w ls where it: "it = (w, ls)" by (cases it)
  from Cons.prems it obtain v where v: "map_of M w = Some v" "ls \<noteq> [] \<longrightarrow> v \<noteq> []"
    by (auto simp: absorbs_def)
  from Cons.prems have "absorbs M items" unfolding absorbs_def by simp
  then have "absorbs (extend_entry w ls M) items" by (rule absorbs_extend)
  from Cons.IH[OF this] clean_extend_absorbed[OF v] it show ?case by simp
qed

lemma merge_values_absorbs: "absorbs (merge_values items M) items"
proof (induction items arbitrary: M)
  case Nil
  then show ?case by (simp add: absorbs_def)
next
  case (Cons it items)
  obtain w ls where it: "it = (w, ls)" by (cases it)
  have "absorbs (extend_entry w ls M) [(w, ls)]"
    by (simp add: absorbs_def map_of_extend_entry)
  then have "absorbs (merge_values items (extend_entry w ls M)) [(w, ls)]"
    by (rule absorbs_merge_values)
  with Cons[of "extend_entry w ls M"] it show ?case unfolding absorbs_def by simp
qed

lemma clean_merge_twice:
  "clean (merge_values (items @ items) M) = clean (merge_values items M)"
  by (simp add: merge_values_append clean_merge_absorbed merge_values_absorbs)

lemma absorbs_self: "distinct (map fst M) \<Longrightarrow> absorbs M M"
  unfolding absorbs_def by (auto simp: map_of_eq_Some_iff)

lemma clean_merge_self:
  "distinct (map fst M) \<Longrightarrow> clean (merge_values M M) = clean M"
  by (simp add: clean_merge_absorbed absorbs_self)

subsection \<open>The heap-level merge computes the merge on values\<close>

lemma extend_fresh: "l < length h \<Longrightarrow> extend (h @ [[]]) (length h) l = h @ [h ! l]"
  by (simp add: extend_def nth_append)

lemma map_fst_deref: "map fst (deref h d) = map fst d"
  by (induction d) (auto simp: deref_def)

lemma deref_Cons: "deref h ((w, a) # d) = (w, h ! a) # deref h d"
  by (simp add: deref_def)

lemma deref_append: "deref h (xs @ ys) = deref h xs @ deref h ys"
  by (simp add: deref_def)

lemma deref_concat: "deref h (concat ds) = concat (map (deref h) ds)"
  by (induction ds) (simp_all add: deref_append, simp add: deref_def)

lemma deref_cong:
  "(\<And>a. a \<in> set (map snd d) \<Longrightarrow> h' ! a = h ! a) \<Longrightarrow> deref h' d = deref h d"
  by (induction d) (auto simp: deref_def)

lemma map_of_deref: "map_of (deref h d) w = map_option (\<lambda>a. h ! a) (map_of d w)"
  by (induction d) (auto simp: deref_def)

lemma map_of_refs: "map_of m w = Some a \<Longrightarrow> a \<in> set (map snd m)"
  by (induction m) (auto split: if_splits)

lemma deref_update_entry:
  "distinct (map snd m) \<Longrightarrow> map_of m w = Some a \<Longrightarrow> a < length h \<Longrightarrow>
     deref (h[a := h ! a @ ls]) m = extend_entry w ls (deref h m)"
proof (induction m)
  case Nil
  then show ?case by simp
next
  case (Cons e m)
  obtain k b where e: "e = (k, b)" by (cases e)
  show ?case
  proof (cases "k = w")
    case True
    with Cons.prems e have ab: "a = b" by simp
    with Cons.prems e have "a \<notin> set (map snd m)" by simp
    then have "deref (h[a := h ! a @ ls]) m = deref h m"
      by (intro deref_cong) (metis nth_list_update_neq)
    with True ab e Cons.prems(3) show ?thesis by (simp add: deref_Cons)
  next
    case False
    with Cons.prems e have m: "map_of m w = Some a" by simp
    then have "a \<in> set (map snd m)" by (rule map_of_refs)
    with Cons.prems e have "b \<noteq> a" by auto
    moreover from Cons.prems have "distinct (map snd m)" by simp
    note Cons.IH[OF this m Cons.prems(3)]
    ultimately show ?thesis using False e by (simp add: deref_Cons)
  qed
qed

lemma merge_items_refines:
  assumes "valid_dict h m"
    and "\<forall>l\<in>set (map snd items). l < length h \<and> l \<notin> set (map snd m)"
  shows "valid_dict (fst (merge_items items (h, m))) (snd (merge_items items (h, m))) \<and>
     deref (fst (merge_items items (h, m))) (snd (merge_items items (h, m))) =
       merge_values (deref h items) (deref h m) \<and>
     set m \<subseteq> set (snd (merge_items items (h, m)))"
  using assms
proof (induction items arbitrary: h m)
  case Nil
  then show ?case by (simp add: deref_def)
next
  case (Cons it items)
  obtain w l where it: "it = (w, l)" by (cases it)
  from Cons.prems it have l: "l < length h" "l \<notin> set (map snd m)" by auto
  have rest: "\<forall>l'\<in>set (map snd items). l' < length h \<and> l' \<notin> set (map snd m)"
    using Cons.prems(2) by simp
  show ?case
  proof (cases "map_of m w")
    case None
    let ?h1 = "h @ [h ! l]"
    let ?m1 = "m @ [(w, length h)]"
    have step: "merge_items (it # items) (h, m) = merge_items items (?h1, ?m1)"
      using None it l by (simp add: extend_fresh)
    from None have wnew: "w \<notin> set (map fst m)"
      by (simp add: map_of_eq_None_iff)
    have v1: "valid_dict ?h1 ?m1"
      using Cons.prems(1) wnew by (fastforce simp: valid_dict_def)
    have r1: "\<forall>l'\<in>set (map snd items). l' < length ?h1 \<and> l' \<notin> set (map snd ?m1)"
      using rest by auto
    have d_items: "deref ?h1 items = deref h items"
      using rest by (intro deref_cong) (auto simp: nth_append)
    have "deref ?h1 m = deref h m"
      using Cons.prems(1) by (intro deref_cong) (auto simp: nth_append valid_dict_def)
    then have "deref ?h1 ?m1 = deref h m @ [(w, h ! l)]"
      by (simp add: deref_append) (simp add: deref_def)
    also have "\<dots> = extend_entry w (h ! l) (deref h m)"
      using wnew by (simp add: extend_entry_new map_fst_deref)
    finally have d_m: "deref ?h1 ?m1 = extend_entry w (h ! l) (deref h m)" .
    from Cons.IH[OF v1 r1] show ?thesis
      unfolding step d_items d_m using it by (simp add: deref_Cons)
  next
    case (Some a)
    let ?h1 = "h[a := h ! a @ h ! l]"
    have step: "merge_items (it # items) (h, m) = merge_items items (?h1, m)"
      using Some it by (simp add: extend_def)
    from Some have a_ref: "a \<in> set (map snd m)" by (rule map_of_refs)
    with Cons.prems(1) have a: "a < length h" unfolding valid_dict_def by blast
    have v1: "valid_dict ?h1 m"
      using Cons.prems(1) by (simp add: valid_dict_def)
    have r1: "\<forall>l'\<in>set (map snd items). l' < length ?h1 \<and> l' \<notin> set (map snd m)"
      using rest by simp
    have d_items: "deref ?h1 items = deref h items"
    proof (intro deref_cong)
      fix b assume "b \<in> set (map snd items)"
      with rest a_ref have "b \<noteq> a" by auto
      then show "?h1 ! b = h ! b" by simp
    qed
    have d_m: "deref ?h1 m = extend_entry w (h ! l) (deref h m)"
      using Cons.prems(1) Some a by (intro deref_update_entry) (simp_all add: valid_dict_def)
    from Cons.IH[OF v1 r1] show ?thesis
      unfolding step d_items d_m using it by (simp add: deref_Cons)
  qed
qed

lemma merge_items_append:
  "merge_items (xs @ ys) hm = merge_items ys (merge_items xs hm)"
proof (induction xs arbitrary: hm)
  case Nil
  then show ?case by simp
next
  case (Cons it xs)
  obtain w l where it: "it = (w, l)" by (cases it)
  obtain h m where hm: "hm = (h, m)" by (cases hm)
  show ?case using Cons.IH it hm by (simp add: Let_def split: option.splits)
qed

lemma merge_dicts_concat: "merge_dicts ds hm = merge_items (concat ds) hm"
  by (induction ds arbitrary: hm) (simp_all add: merge_items_append)

lemma merge_and_clean_alt:
  "merge_and_clean h existing new_dicts =
     (fst (merge_items (concat new_dicts) (h, existing)),
      clean (deref (fst (merge_items (concat new_dicts) (h, existing)))
                   (snd (merge_items (concat new_dicts) (h, existing)))))"
  by (simp add: merge_and_clean_def merge_dicts_concat clean_def deref_def
      split: prod.splits)

lemmas merge_eval =
  merge_and_clean_def extend_def fromkeys_def Let_def u_def deref_def valid_dict_def
  separate_def cleaned_def source_examples_def


subsection \<open>Idempotence\<close>

lemma snd_merge_and_clean_refines:
  assumes "valid_dict h existing"
    and "\<forall>l\<in>set (map snd (concat new_dicts)). l < length h \<and> l \<notin> set (map snd existing)"
  shows "snd (merge_and_clean h existing new_dicts) =
     clean (merge_values (deref h (concat new_dicts)) (deref h existing))"
  using merge_items_refines[OF assms] by (simp add: merge_and_clean_alt)

lemma clean_deref_unchanged:
  "(\<And>a. a \<in> set (map snd d) \<Longrightarrow> take (Suc 0) (h' ! a) = h ! a) \<Longrightarrow>
     clean (deref h' d) = deref h d"
  by (induction d) (auto simp: clean_def deref_def take_Suc0_fromkeys)

lemma cleaned_take: "cleaned h d \<Longrightarrow> a \<in> set (map snd d) \<Longrightarrow> take (Suc 0) (h ! a) = h ! a"
  unfolding cleaned_def by auto

lemma clean_deref_cleaned: "cleaned h d \<Longrightarrow> clean (deref h d) = deref h d"
  by (rule clean_deref_unchanged) (rule cleaned_take)

lemma merge_items_self:
  assumes "\<forall>(w, a)\<in>set items. map_of m w = Some a \<and> a < length h"
  shows "snd (merge_items items (h, m)) = m \<and>
     (\<forall>b. take (Suc 0) (fst (merge_items items (h, m)) ! b) = take (Suc 0) (h ! b))"
  using assms
proof (induction items arbitrary: h)
  case Nil
  then show ?case by simp
next
  case (Cons it items)
  obtain w a where it: "it = (w, a)" by (cases it)
  with Cons.prems have a: "map_of m w = Some a" "a < length h" by auto
  let ?h1 = "h[a := h ! a @ h ! a]"
  have step: "merge_items (it # items) (h, m) = merge_items items (?h1, m)"
    using a it by (simp add: extend_def)
  have same: "take (Suc 0) (?h1 ! b) = take (Suc 0) (h ! b)" for b
  proof (cases "b = a")
    case True
    with a(2) show ?thesis by (cases "h ! a") auto
  next
    case False
    then show ?thesis by simp
  qed
  have "\<forall>(w, a)\<in>set items. map_of m w = Some a \<and> a < length ?h1"
    using Cons.prems by auto
  from Cons.IH[OF this] show ?case unfolding step using same by simp
qed

lemma separate_refs:
  "separate d e \<Longrightarrow> l \<in> set (map snd d) \<Longrightarrow> l \<notin> set (map snd e)"
  unfolding separate_def by blast

text \<open>
  Claim C5. Folding the same source dict in twice gives the same cleaned result as folding
  it in once (for a source whose list objects are allocated and are not list objects of
  the existing dict); and merging a dict whose lists hold at most one example each with
  itself returns the dict's contents, both when the source is the very same dict object
  and when it is a separate copy with the same contents.
\<close>

theorem merge_and_clean_idempotent:
  "(valid_dict h existing \<and> (\<forall>l\<in>set (map snd d). l < length h) \<and> separate d existing \<longrightarrow>
      snd (merge_and_clean h existing [d, d]) = snd (merge_and_clean h existing [d])) \<and>
   (valid_dict h M \<and> cleaned h M \<longrightarrow> snd (merge_and_clean h M [M]) = deref h M) \<and>
   (valid_dict h M \<and> cleaned h M \<and> (\<forall>l\<in>set (map snd M'). l < length h) \<and> separate M' M \<and>
    deref h M' = deref h M \<longrightarrow>
      snd (merge_and_clean h M [M']) = deref h M)"
proof -
  have twice: "snd (merge_and_clean h existing [d, d]) = snd (merge_and_clean h existing [d])"
    if v: "valid_dict h existing" and r: "\<forall>l\<in>set (map snd d). l < length h"
      and s: "separate d existing"
  proof -
    have 1: "\<forall>l\<in>set (map snd (concat [d])). l < length h \<and> l \<notin> set (map snd existing)"
      using r separate_refs[OF s] by auto
    have 2: "\<forall>l\<in>set (map snd (concat [d, d])). l < length h \<and> l \<notin> set (map snd existing)"
      using r separate_refs[OF s] by auto
    show ?thesis
      unfolding snd_merge_and_clean_refines[OF v 1] snd_merge_and_clean_refines[OF v 2]
      by (simp add: deref_append clean_merge_twice)
  qed
  have self: "snd (merge_and_clean h M [M]) = deref h M"
    if v: "valid_dict h M" and c: "cleaned h M"
  proof -
    have items: "\<forall>(w, a)\<in>set M. map_of M w = Some a \<and> a < length h"
      using v by (auto simp: valid_dict_def)
    note self = merge_items_self[OF items]
    have "clean (deref (fst (merge_items M (h, M))) M) = deref h M"
    proof (rule clean_deref_unchanged)
      fix a assume "a \<in> set (map snd M)"
      with c have "take (Suc 0) (h ! a) = h ! a" by (rule cleaned_take)
      with self show "take (Suc 0) (fst (merge_items M (h, M)) ! a) = h ! a" by simp
    qed
    with self show ?thesis by (simp add: merge_and_clean_alt)
  qed
  have copy: "snd (merge_and_clean h M [M']) = deref h M"
    if v: "valid_dict h M" and c: "cleaned h M" and r: "\<forall>l\<in>set (map snd M'). l < length h"
      and s: "separate M' M" and e: "deref h M' = deref h M"
  proof -
    have 1: "\<forall>l\<in>set (map snd (concat [M'])). l < length h \<and> l \<notin> set (map snd M)"
      using r separate_refs[OF s] by auto
    have "distinct (map fst (deref h M))"
      using v by (simp add: map_fst_deref valid_dict_def)
    then have "clean (merge_values (deref h M) (deref h M)) = clean (deref h M)"
      by (rule clean_merge_self)
    then show ?thesis
      unfolding snd_merge_and_clean_refines[OF v 1]
      by (simp add: e clean_deref_cleaned[OF c])
  qed
  from twice self copy show ?thesis by blast
qed

theorem merge_and_clean_idempotent_witness:
  "valid_dict [[u ''e1''], [u ''e2''], [u ''e3''], [u ''e1'']] [(u ''a'', 0)] \<and>
   separate [(u ''a'', 1), (u ''b'', 2)] [(u ''a'', 0)] \<and>
   separate [(u ''a'', 3)] [(u ''a'', 0)] \<and>
   cleaned [[u ''e1''], [u ''e2''], [u ''e3''], [u ''e1'']] [(u ''a'', 0)] \<and>
   snd (merge_and_clean [[u ''e1''], [u ''e2''], [u ''e3''], [u ''e1'']] [(u ''a'', 0)]
          [[(u ''a'', 1), (u ''b'', 2)], [(u ''a'', 1), (u ''b'', 2)]]) =
   snd (merge_and_clean [[u ''e1''], [u ''e2''], [u ''e3''], [u ''e1'']] [(u ''a'', 0)]
          [[(u ''a'', 1), (u ''b'', 2)]]) \<and>
   snd (merge_and_clean [[u ''e1''], [u ''e2''], [u ''e3''], [u ''e1'']] [(u ''a'', 0)]
          [[(u ''a'', 1), (u ''b'', 2)]]) = [(u ''a'', [u ''e1'']), (u ''b'', [u ''e3''])] \<and>
   snd (merge_and_clean [[u ''e1''], [u ''e2''], [u ''e3''], [u ''e1'']] [(u ''a'', 0)]
          [[(u ''a'', 0)]]) = [(u ''a'', [u ''e1''])] \<and>
   snd (merge_and_clean [[u ''e1''], [u ''e2''], [u ''e3''], [u ''e1'']] [(u ''a'', 0)]
          [[(u ''a'', 3)]]) = [(u ''a'', [u ''e1''])]"
proof -
  let ?h = "[[u ''e1''], [u ''e2''], [u ''e3''], [u ''e1'']]"
  let ?E = "[(u ''a'', 0::nat)]"
  let ?d = "[(u ''a'', 1::nat), (u ''b'', 2)]"
  let ?M' = "[(u ''a'', 3::nat)]"
  have v: "valid_dict ?h ?E" by (simp add: valid_dict_def)
  have s1: "separate ?d ?E" by (simp add: separate_def)
  have s2: "separate ?M' ?E" by (simp add: separate_def)
  have c: "cleaned ?h ?E" by (simp add: cleaned_def)
  have r1: "\<forall>l\<in>set (map snd ?d). l < length ?h" by simp
  have r2: "\<forall>l\<in>set (map snd ?M'). l < length ?h" by simp
  have e: "deref ?h ?M' = deref ?h ?E" by (simp add: deref_def)
  have once: "snd (merge_and_clean ?h ?E [?d]) = [(u ''a'', [u ''e1'']), (u ''b'', [u ''e3''])]"
    by (simp add: merge_eval)
  have dr: "deref ?h ?E = [(u ''a'', [u ''e1''])]" by (simp add: deref_def)
  from merge_and_clean_idempotent[of ?h ?E ?d ?E ?M'] v s1 s2 c r1 r2 e
  have "snd (merge_and_clean ?h ?E [?d, ?d]) = snd (merge_and_clean ?h ?E [?d]) \<and>
        snd (merge_and_clean ?h ?E [?E]) = deref ?h ?E \<and>
        snd (merge_and_clean ?h ?E [?M']) = deref ?h ?E"
    by blast
  with v s1 s2 c once dr show ?thesis by simp
qed


subsection \<open>The effect on the caller's dict\<close>

lemma examples_for_append:
  "examples_for w (xs @ ys) = examples_for w xs @ examples_for w ys"
  by (simp add: examples_for_def)

lemma examples_for_concat:
  "examples_for w (concat xss) = concat (map (examples_for w) xss)"
  by (induction xss) (simp_all add: examples_for_append, simp add: examples_for_def)

lemma examples_for_absent:
  "w \<notin> set (map fst d) \<Longrightarrow> examples_for w (deref h d) = []"
  by (induction d) (auto simp: examples_for_def deref_def)

lemma examples_for_dict:
  "distinct (map fst d) \<Longrightarrow> examples_for w (deref h d) = source_examples h w d"
proof (induction d)
  case Nil
  then show ?case by (simp add: examples_for_def deref_def source_examples_def)
next
  case (Cons e d)
  obtain k a where e: "e = (k, a)" by (cases e)
  show ?case
  proof (cases "k = w")
    case True
    with Cons.prems e have "w \<notin> set (map fst d)" by auto
    from examples_for_absent[OF this, of h] have "examples_for w (deref h d) = []" .
    then have "examples_for w (deref h (e # d)) = h ! a"
      using True e by (simp add: examples_for_def deref_def)
    with True e show ?thesis by (simp add: source_examples_def)
  next
    case False
    with Cons e have "examples_for w (deref h d) = source_examples h w d" by simp
    with False e show ?thesis by (simp add: examples_for_def deref_def source_examples_def)
  qed
qed

text \<open>
  Claim C9. \<open>merge_and_clean\<close> changes the lists of its first argument: for a word of
  the existing dict, the list object the caller's dict holds for it is, after the call, its
  old content followed by the examples of every source dict for that word, in the order of
  the sources; so it differs from the old content as soon as one source has an example
  for the word. (The source dicts have distinct keys and allocated list objects that are
  not list objects of the existing dict.)
\<close>

theorem merge_and_clean_extends_existing_lists:
  assumes "valid_dict h existing_dict"
    and "\<forall>d\<in>set new_dicts.
           distinct (map fst d) \<and> (\<forall>l\<in>set (map snd d). l < length h) \<and> separate d existing_dict"
    and "map_of existing_dict word = Some a"
  shows "fst (merge_and_clean h existing_dict new_dicts) ! a =
           h ! a @ concat (map (source_examples h word) new_dicts) \<and>
         ((\<exists>d\<in>set new_dicts. source_examples h word d \<noteq> []) \<longrightarrow>
            fst (merge_and_clean h existing_dict new_dicts) ! a \<noteq> h ! a)"
proof -
  let ?X = "merge_items (concat new_dicts) (h, existing_dict)"
  have refs: "\<forall>l\<in>set (map snd (concat new_dicts)).
      l < length h \<and> l \<notin> set (map snd existing_dict)"
    using assms(2) separate_refs by fastforce
  from merge_items_refines[OF assms(1) refs]
  have v: "valid_dict (fst ?X) (snd ?X)"
    and d: "deref (fst ?X) (snd ?X) =
       merge_values (deref h (concat new_dicts)) (deref h existing_dict)"
    and sub: "set existing_dict \<subseteq> set (snd ?X)"
    by blast+
  from assms(3) have "(word, a) \<in> set existing_dict" by (rule map_of_SomeD)
  with sub have "(word, a) \<in> set (snd ?X)" by blast
  moreover from v have "distinct (map fst (snd ?X))" by (simp add: valid_dict_def)
  ultimately have "map_of (snd ?X) word = Some a" by simp
  then have "map_of (deref (fst ?X) (snd ?X)) word = Some (fst ?X ! a)"
    by (simp add: map_of_deref)
  moreover have "map_of (deref h existing_dict) word = Some (h ! a)"
    using assms(3) by (simp add: map_of_deref)
  then have "map_of (merge_values (deref h (concat new_dicts)) (deref h existing_dict)) word =
      Some (h ! a @ examples_for word (deref h (concat new_dicts)))"
    by (rule map_of_merge_values)
  ultimately have "fst ?X ! a = h ! a @ examples_for word (deref h (concat new_dicts))"
    using d by simp
  also have "examples_for word (deref h (concat new_dicts)) =
      concat (map (examples_for word) (map (deref h) new_dicts))"
    by (simp add: deref_concat examples_for_concat)
  also have "\<dots> = concat (map (source_examples h word) new_dicts)"
    using assms(2) by (auto simp: examples_for_dict intro!: arg_cong[where f=concat])
  finally have eq: "fst (merge_and_clean h existing_dict new_dicts) ! a =
      h ! a @ concat (map (source_examples h word) new_dicts)"
    by (simp add: merge_and_clean_alt)
  then show ?thesis by auto
qed

theorem merge_and_clean_extends_existing_lists_witness:
  "valid_dict [[u ''e1''], [u ''e2''], [u ''e3'']] [(u ''a'', 0)] \<and>
   map_of [(u ''a'', 0::nat)] (u ''a'') = Some 0 \<and>
   fst (merge_and_clean [[u ''e1''], [u ''e2''], [u ''e3'']] [(u ''a'', 0)]
          [[(u ''a'', 1)], [(u ''b'', 1), (u ''a'', 2)]]) ! 0 =
     [u ''e1'', u ''e2'', u ''e3''] \<and>
   [[u ''e1''], [u ''e2''], [u ''e3'']] ! 0 = [u ''e1'']"
proof -
  let ?h = "[[u ''e1''], [u ''e2''], [u ''e3'']]"
  let ?E = "[(u ''a'', 0::nat)]"
  let ?ds = "[[(u ''a'', 1::nat)], [(u ''b'', 1), (u ''a'', 2)]]"
  have v: "valid_dict ?h ?E" by (simp add: valid_dict_def)
  have src: "\<forall>d\<in>set ?ds.
      distinct (map fst d) \<and> (\<forall>l\<in>set (map snd d). l < length ?h) \<and> separate d ?E"
    by (simp add: separate_def u_def)
  have look: "map_of ?E (u ''a'') = Some 0" by simp
  from merge_and_clean_extends_existing_lists[OF v src look]
  have "fst (merge_and_clean ?h ?E ?ds) ! 0 =
      ?h ! 0 @ concat (map (source_examples ?h (u ''a'')) ?ds)"
    by blast
  moreover have "concat (map (source_examples ?h (u ''a'')) ?ds) = [u ''e2'', u ''e3'']"
    by (simp add: source_examples_def u_def)
  ultimately show ?thesis using v look by simp
qed

end
